theory Spec2Isabelle
  imports
    Main
    "HOL-Library.Word"
    "HOL-Library.Char_ord"
    "HOL-Library.List_Lexorder"
begin

unbundle bit_operations_syntax

section \<open>gitstatus: src/git.cc\<close>

text \<open>
  A shallow embedding of \<^verbatim>\<open>src/git.cc\<close>. Every function of the source that a property
  below depends on is a HOL function of the same name. Calls into libgit2 are parameters:
  a call that can fail returns an \<open>option\<close> or a datatype with one constructor per return
  code the source distinguishes. C strings are \<open>string\<close>s (the bytes before the terminating
  NUL); \<open>strcmp\<close> and the comparison of \<open>std::string\<close> are the lexicographic order on
  bytes, read as unsigned (the source holds \<open>static_assert(std::is_unsigned<char>())\<close>).
\<close>

subsection \<open>Ways in which a call does not return a value\<close>

text \<open>
  Modelled from the spec: the macros \<open>CHECK\<close> and \<open>VERIFY\<close> of \<^verbatim>\<open>check.h\<close>, which is not
  part of the sources at hand. Section 7 of the specification: a violated internal check
  aborts the process, and a backend call that fails makes the current query fail.

  \<open>Exception\<close> is \<open>gitstatus::Exception\<close>, thrown by \<open>throw Exception()\<close> and by a failed
  \<open>VERIFY\<close>. \<open>CheckFailed\<close> is a failed \<open>CHECK\<close> (the process is aborted). \<open>bad_alloc\<close> is
  an allocation of a \<open>std::vector\<close> that the allocator refuses. \<open>StillWaiting\<close> is a wait
  on the condition variable for which the given worker steps do not suffice.
\<close>

datatype failure = Exception | CheckFailed | bad_alloc | StillWaiting

subsection \<open>References (Head, TagHasTarget, GetTagName)\<close>

type_synonym git_oid = string

datatype ref_target = Direct git_oid | Symbolic string

record git_reference =
  ref_name :: string
  ref_target :: ref_target

text \<open>The three outcomes that \<open>Head\<close> tells apart in \<open>git_reference_lookup\<close>.\<close>

datatype lookup_result = Found git_reference | GIT_ENOTFOUND | OtherError

text \<open>
  \<open>Head\<close> (lines 176-195). \<open>lookup_HEAD\<close> is the outcome of
  \<open>git_reference_lookup(&symbolic, repo, "HEAD")\<close>; \<open>git_reference_resolve\<close> is \<open>None\<close>
  when the call returns non-zero. The result \<open>None\<close> is \<open>nullptr\<close>.
\<close>

definition Head ::
  "lookup_result \<Rightarrow> (git_reference \<Rightarrow> git_reference option) \<Rightarrow> failure + git_reference option"
where
  "Head lookup_HEAD git_reference_resolve =
    (case lookup_HEAD of
       Found symbolic \<Rightarrow>
         (case git_reference_resolve symbolic of
            None \<Rightarrow> Inr (Some symbolic)
          | Some direct \<Rightarrow> Inr (Some direct))
     | GIT_ENOTFOUND \<Rightarrow> Inr None
     | OtherError \<Rightarrow> Inl Exception)"

text \<open>
  What \<open>TagHasTarget\<close> and \<open>GetTagName\<close> ask of libgit2.
  \<open>git_refdb_lookup name\<close> is \<open>None\<close> when the call returns non-zero.
  \<open>peel_tag_target ref\<close> is \<open>git_reference_peel(&obj, ref, GIT_OBJECT_TAG)\<close> followed by
  \<open>git_tag_target_id\<close>: \<open>None\<close> when peeling fails, \<open>Some None\<close> when the tag has a null
  target id, \<open>Some (Some t)\<close> otherwise.
  \<open>glob_tags\<close> is \<open>git_reference_iterator_glob_new(&iter, repo, "refs/tags/*")\<close>: \<open>None\<close>
  when it fails, else what the successive calls of \<open>git_reference_next_name\<close> give before
  \<open>GIT_ITEROVER\<close>: \<open>Some name\<close>, or \<open>None\<close> for any other error code.
  \<open>refdb_ok\<close> is whether \<open>git_repository_refdb\<close> succeeds.
\<close>

record tag_backend =
  git_refdb_lookup :: "string \<Rightarrow> git_reference option"
  peel_tag_target :: "git_reference \<Rightarrow> git_oid option option"
  glob_tags :: "string option list option"
  refdb_ok :: bool

text \<open>
  The loop of lines 251-256, with \<open>k = 10 - i\<close> iterations left. Each iteration looks up
  \<open>git_reference_name(ref)\<close>, the name of the reference at hand.
\<close>

fun TagHasTarget_loop ::
  "(string \<Rightarrow> git_reference option) \<Rightarrow> nat \<Rightarrow> git_reference \<Rightarrow> git_reference option"
where
  "TagHasTarget_loop lookup 0 ref = Some ref"
| "TagHasTarget_loop lookup (Suc k) ref =
    (case ref_target ref of
       Direct _ \<Rightarrow> Some ref
     | Symbolic _ \<Rightarrow>
         (case lookup (ref_name ref) of
            None \<Rightarrow> None
          | Some dst \<Rightarrow> TagHasTarget_loop lookup k dst))"

definition TagHasTarget :: "tag_backend \<Rightarrow> string \<Rightarrow> git_oid \<Rightarrow> bool" where
  "TagHasTarget be name target =
    (case git_refdb_lookup be name of
       None \<Rightarrow> False
     | Some ref0 \<Rightarrow>
         (case TagHasTarget_loop (git_refdb_lookup be) 10 ref0 of
            None \<Rightarrow> False
          | Some ref \<Rightarrow>
              (case ref_target ref of
                 Symbolic _ \<Rightarrow> False
               | Direct oid \<Rightarrow>
                   if oid = target then True
                   else (case peel_tag_target be ref of
                           None \<Rightarrow> False
                         | Some None \<Rightarrow> False
                         | Some (Some tag_target) \<Rightarrow> tag_target = target))))"

definition kTagPrefix :: string where
  "kTagPrefix = ''refs/tags/''"

text \<open>The \<open>while (true)\<close> loop of \<open>GetTagName\<close> (lines 286-301) over the iterator.\<close>

fun GetTagName_loop :: "tag_backend \<Rightarrow> string option list \<Rightarrow> git_oid \<Rightarrow> failure + string" where
  "GetTagName_loop be [] target = Inr ''''"
| "GetTagName_loop be (None # rest) target = GetTagName_loop be rest target"
| "GetTagName_loop be (Some name # rest) target =
    (if TagHasTarget be name target then
       (if take (length kTagPrefix) name = kTagPrefix
        then Inr (drop (length kTagPrefix) name)
        else Inl CheckFailed)
     else GetTagName_loop be rest target)"

text \<open>
  \<open>GetTagName\<close> (lines 268-307): the value or the exception that the scheduled task
  stores in the promise.
\<close>

definition GetTagName :: "tag_backend \<Rightarrow> git_oid option \<Rightarrow> failure + string" where
  "GetTagName be target =
    (case target of
       None \<Rightarrow> Inr ''''
     | Some t \<Rightarrow>
         (case glob_tags be of
            None \<Rightarrow> Inl Exception
          | Some names \<Rightarrow>
              if \<not> refdb_ok be then Inl Exception
              else GetTagName_loop be names t))"

text \<open>
  The tag finder in the words of the specification, for comparison: a symbolic reference
  is resolved by following its symbolic target, for at most 10 hops.
\<close>

fun spec_resolve ::
  "(string \<Rightarrow> git_reference option) \<Rightarrow> nat \<Rightarrow> git_reference \<Rightarrow> git_reference option"
where
  "spec_resolve lookup k ref =
    (case ref_target ref of
       Direct _ \<Rightarrow> Some ref
     | Symbolic dst_name \<Rightarrow>
         (case k of
            0 \<Rightarrow> None
          | Suc k' \<Rightarrow>
              (case lookup dst_name of
                 None \<Rightarrow> None
               | Some dst \<Rightarrow> spec_resolve lookup k' dst)))"

definition spec_TagHasTarget :: "tag_backend \<Rightarrow> string \<Rightarrow> git_oid \<Rightarrow> bool" where
  "spec_TagHasTarget be name target =
    (case git_refdb_lookup be name of
       None \<Rightarrow> False
     | Some ref0 \<Rightarrow>
         (case spec_resolve (git_refdb_lookup be) 10 ref0 of
            None \<Rightarrow> False
          | Some ref \<Rightarrow>
              ref_target ref = Direct target
              \<or> peel_tag_target be ref = Some (Some target)))"

fun spec_GetTagName_loop :: "tag_backend \<Rightarrow> string option list \<Rightarrow> git_oid \<Rightarrow> string" where
  "spec_GetTagName_loop be [] target = ''''"
| "spec_GetTagName_loop be (None # rest) target = spec_GetTagName_loop be rest target"
| "spec_GetTagName_loop be (Some name # rest) target =
    (if spec_TagHasTarget be name target then drop (length kTagPrefix) name
     else spec_GetTagName_loop be rest target)"

text \<open>
  A repository with a branch \<open>refs/heads/main\<close> at commit \<open>c1\<close> and one tag,
  \<open>refs/tags/alias\<close>, a symbolic reference to that branch
  (\<^verbatim>\<open>git symbolic-ref refs/tags/alias refs/heads/main\<close>).
\<close>

definition alias_refs :: "string \<Rightarrow> git_reference option" where
  "alias_refs name =
    (if name = ''refs/tags/alias''
       then Some \<lparr>ref_name = name, ref_target = Symbolic ''refs/heads/main''\<rparr>
     else if name = ''refs/heads/main''
       then Some \<lparr>ref_name = name, ref_target = Direct ''c1''\<rparr>
     else None)"

definition alias_repo :: tag_backend where
  "alias_repo =
    \<lparr>git_refdb_lookup = alias_refs,
     peel_tag_target = (\<lambda>_. None),
     glob_tags = Some [Some ''refs/tags/alias''],
     refdb_ok = True\<rparr>"

definition unborn_HEAD :: git_reference where
  "unborn_HEAD = \<lparr>ref_name = ''HEAD'', ref_target = Symbolic ''refs/heads/master''\<rparr>"

subsection \<open>The repository object\<close>

text \<open>
  Modelled from the spec: \<open>OptionalFile\<close>, declared in \<^verbatim>\<open>git.h\<close>, which is not part of
  the sources at hand. Section 4.2 of the specification: a slot is empty or filled with a
  path; \<open>try_set\<close> stores the path and returns true if the slot is empty, and returns false
  otherwise; \<open>clear\<close> returns the content and resets the slot.
\<close>

type_synonym OptionalFile = "string option"

definition Empty :: "OptionalFile \<Rightarrow> bool" where
  "Empty f = (f = None)"

definition TrySet :: "string \<Rightarrow> OptionalFile \<Rightarrow> bool \<times> OptionalFile" where
  "TrySet p f = (if f = None then (True, Some p) else (False, f))"

definition Clear :: "OptionalFile \<Rightarrow> string \<times> OptionalFile" where
  "Clear f = (case f of None \<Rightarrow> ([], None) | Some p \<Rightarrow> (p, None))"

text \<open>
  Modelled from the spec: \<open>IndexStats\<close> and its three-valued members, declared in
  \<^verbatim>\<open>git.h\<close>. Section 3 of the specification: \<open>has_staged\<close> is a boolean,
  \<open>has_unstaged\<close> and \<open>has_untracked\<close> are one of true, false and unknown.
\<close>

datatype Tribool = kFalse | kTrue | kUnknown

record IndexStats =
  has_staged :: bool
  has_unstaged :: Tribool
  has_untracked :: Tribool

text \<open>
  A task handed to \<open>g_thread_pool->Schedule\<close> by \<open>RunAsync\<close>: a dirty scan of one shard
  (with the flag saying whether untracked files are included), a staged scan of one shard,
  or the rebuilding of the shard table.
\<close>

datatype task =
  DirtyScan bool string string
| StagedScan string string
| RefreshSplits

text \<open>
  The members of \<open>Repo\<close> that the functions below read and write; a member \<open>x_\<close> of
  the class is \<open>m_x\<close> here, since a name cannot end in an underscore. \<open>m_index\<close> holds
  the path of every entry of the in-memory index, in index order (the only member of an
  entry that is used). \<open>m_inflight\<close> is an integer, so that staying non-negative is a
  property of the code and not of the type. \<open>scheduled\<close> is not a member of the class: it
  records the tasks passed to the thread pool, in order.
\<close>

record Repo =
  m_index :: "string list"
  m_staged :: OptionalFile
  m_unstaged :: OptionalFile
  m_untracked :: OptionalFile
  m_splits :: "string list"
  m_inflight :: int
  m_error :: bool
  scheduled :: "task list"

text \<open>A member of type \<open>OptionalFile\<close> passed by reference.\<close>

datatype slot = staged | unstaged | untracked

fun get_slot :: "slot \<Rightarrow> Repo \<Rightarrow> OptionalFile" where
  "get_slot staged r = m_staged r"
| "get_slot unstaged r = m_unstaged r"
| "get_slot untracked r = m_untracked r"

fun set_slot :: "slot \<Rightarrow> OptionalFile \<Rightarrow> Repo \<Rightarrow> Repo" where
  "set_slot staged f r = r\<lparr>m_staged := f\<rparr>"
| "set_slot unstaged f r = r\<lparr>m_unstaged := f\<rparr>"
| "set_slot untracked f r = r\<lparr>m_untracked := f\<rparr>"

text \<open>\<open>Repo::UpdateFile\<close> (lines 597-604); logging and the notification are left out.\<close>

definition UpdateFile :: "slot \<Rightarrow> string \<Rightarrow> Repo \<Rightarrow> Repo" where
  "UpdateFile file path r =
    (if \<not> Empty (get_slot file r) then r
     else (case TrySet path (get_slot file r) of (_, f') \<Rightarrow> set_slot file f' r))"

subsection \<open>The notification callbacks of the scans\<close>

text \<open>\<open>git_delta_t\<close> and \<open>GIT_EUSER\<close> of libgit2.\<close>

datatype git_delta_t =
  GIT_DELTA_UNMODIFIED | GIT_DELTA_ADDED | GIT_DELTA_DELETED | GIT_DELTA_MODIFIED
| GIT_DELTA_RENAMED | GIT_DELTA_COPIED | GIT_DELTA_IGNORED | GIT_DELTA_UNTRACKED
| GIT_DELTA_TYPECHANGE | GIT_DELTA_UNREADABLE | GIT_DELTA_CONFLICTED

record git_diff_delta =
  status :: git_delta_t
  new_file_path :: string

definition GIT_EUSER :: int where
  "GIT_EUSER = - 7"

text \<open>
  The \<open>notify_cb\<close> of \<open>Repo::StartDirtyScan\<close> (lines 420-431): the value returned to
  libgit2 and the repository after the call.
\<close>

definition dirty_notify_cb :: "git_diff_delta \<Rightarrow> Repo \<Rightarrow> int \<times> Repo" where
  "dirty_notify_cb delta repo =
    (if m_error repo then (GIT_EUSER, repo)
     else if status delta = GIT_DELTA_UNTRACKED then
       (let repo' = UpdateFile untracked (new_file_path delta) repo
        in (if Empty (m_unstaged repo') then 1 else GIT_EUSER, repo'))
     else
       (let repo' = UpdateFile unstaged (new_file_path delta) repo
        in (if Empty (m_untracked repo') then 1 else GIT_EUSER, repo')))"

text \<open>The \<open>notify_cb\<close> of \<open>Repo::StartStagedScan\<close> (lines 462-467).\<close>

definition staged_notify_cb :: "git_diff_delta \<Rightarrow> Repo \<Rightarrow> int \<times> Repo" where
  "staged_notify_cb delta repo = (GIT_EUSER, UpdateFile staged (new_file_path delta) repo)"

subsection \<open>The shard table (Repo::UpdateSplits)\<close>

text \<open>
  The allocator: whether a request for room for the given number of pointers is granted.
  A request that is refused throws \<open>std::bad_alloc\<close>.
\<close>

type_synonym allocator = "nat \<Rightarrow> bool"

text \<open>
  \<open>std::vector<char*> patches\<close>: the elements in the order pushed, and the capacity.
  An element is the address of one byte of a path: the number of the index entry and the
  offset in its path.
\<close>

record patches_vector =
  elems :: "(nat \<times> nat) list"
  capacity :: nat

text \<open>
  \<open>patches.push_back(p)\<close>: \<open>None\<close> is \<open>std::bad_alloc\<close>, which leaves the vector as it
  was. A full vector asks for twice its capacity (the growth of libstdc++ and libc++).
\<close>

definition push_back :: "allocator \<Rightarrow> nat \<times> nat \<Rightarrow> patches_vector \<Rightarrow> patches_vector option" where
  "push_back al p v =
    (if length (elems v) < capacity v then Some (v\<lparr>elems := elems v @ [p]\<rparr>)
     else (let c = max 1 (2 * capacity v)
           in if al c then Some \<lparr>elems = elems v @ [p], capacity = c\<rparr> else None))"

text \<open>
  A \<open>const char*\<close> held in \<open>entries\<close>, \<open>last\<close> or \<open>max\<close>: the string literal \<open>""\<close>, or
  the path of an index entry. Two such pointers are equal iff they are the same value here.
\<close>

datatype cstr = Literal_empty | Path nat

fun deref :: "string list \<Rightarrow> cstr \<Rightarrow> string" where
  "deref paths Literal_empty = []"
| "deref paths (Path i) = paths ! i"

definition kEntriesPerShard :: nat where
  "kEntriesPerShard = 512"

text \<open>
  The inner loop of lines 519-523 on path \<open>i\<close>, at offset \<open>j\<close>, with \<open>cs\<close> the bytes from
  that offset on: every \<open>'/'\<close> is overwritten by the byte 1, and then its address is
  pushed. The result is the bytes as they are left, the vector, and whether no push threw.
\<close>

fun patch_path ::
  "allocator \<Rightarrow> nat \<Rightarrow> nat \<Rightarrow> string \<Rightarrow> patches_vector \<Rightarrow> string \<times> patches_vector \<times> bool"
where
  "patch_path al i j [] v = ([], v, True)"
| "patch_path al i j (c # cs) v =
    (if c = CHR ''/'' then
       (case push_back al (i, j) v of
          None \<Rightarrow> (CHR 0x01 # cs, v, False)
        | Some v' \<Rightarrow>
            (case patch_path al i (Suc j) cs v' of
               (cs', v'', ok) \<Rightarrow> (CHR 0x01 # cs', v'', ok)))
     else
       (case patch_path al i (Suc j) cs v of
          (cs', v', ok) \<Rightarrow> (c # cs', v', ok)))"

text \<open>How the loop of lines 512-524 is left.\<close>

datatype patch_exit = Patched | SentinelFound | PushThrew

text \<open>
  The loop of lines 512-524 from entry \<open>i\<close> on, with \<open>ps\<close> the paths of the entries from
  \<open>i\<close> on. The result is these paths as they are left, the vector, and the exit.
\<close>

fun patch_paths ::
  "allocator \<Rightarrow> nat \<Rightarrow> string list \<Rightarrow> patches_vector \<Rightarrow> string list \<times> patches_vector \<times> patch_exit"
where
  "patch_paths al i [] v = ([], v, Patched)"
| "patch_paths al i (p # ps) v =
    (if CHR 0x01 \<in> set p then (p # ps, v, SentinelFound)
     else
       (case patch_path al i 0 p v of
          (p', v', False) \<Rightarrow> (p' # ps, v', PushThrew)
        | (p', v', True) \<Rightarrow>
            (case patch_paths al (Suc i) ps v' of
               (ps', v'', ex) \<Rightarrow> (p' # ps', v'', ex))))"

text \<open>The scope guard of lines 508-510: \<open>for (char* p : patches) *p = '/'\<close>.\<close>

definition poke :: "string list \<Rightarrow> nat \<times> nat \<Rightarrow> string list" where
  "poke paths p = (case p of (i, j) \<Rightarrow> paths[i := (paths ! i)[j := CHR ''/'']])"

definition restore :: "string list \<Rightarrow> patches_vector \<Rightarrow> string list" where
  "restore paths v = foldl poke paths (elems v)"

text \<open>
  The loop of lines 531-544 at position \<open>i\<close>, with \<open>es\<close> the sorted entries from \<open>i\<close> on;
  the result is what these positions of \<open>entries\<close> hold afterwards. \<open>lastp\<close> and
  \<open>maxp\<close> are the variables \<open>last\<close> and \<open>max\<close>. \<open>paths\<close> are the patched paths: the
  loop runs before the scope guard.
\<close>

fun safe_points :: "string list \<Rightarrow> nat \<Rightarrow> cstr list \<Rightarrow> cstr \<Rightarrow> cstr \<Rightarrow> cstr list" where
  "safe_points paths i [] lastp maxp = []"
| "safe_points paths i (e # es) lastp maxp =
    (let idx = Path i in
     if e = idx \<and> deref paths maxp = [] then e # safe_points paths (Suc i) es e maxp
     else
       (let maxp' = (if deref paths idx > deref paths maxp then idx else maxp) in
        if e = idx \<and> deref paths e \<ge> deref paths maxp'
        then e # safe_points paths (Suc i) es e Literal_empty
        else lastp # safe_points paths (Suc i) es lastp maxp'))"

text \<open>\<open>split.find_last_of('/')\<close>, with \<open>None\<close> for \<open>npos\<close>.\<close>

fun find_last_of :: "char \<Rightarrow> string \<Rightarrow> nat option" where
  "find_last_of c [] = None"
| "find_last_of c (x # xs) =
    (case find_last_of c xs of
       Some k \<Rightarrow> Some (Suc k)
     | None \<Rightarrow> if x = c then Some 0 else None)"

text \<open>
  The body of the loop of lines 551-560 for one \<open>i\<close>; \<open>paths\<close> are the restored paths and
  \<open>splits\<close> is the table built so far.
\<close>

definition add_split :: "string list \<Rightarrow> cstr list \<Rightarrow> nat \<Rightarrow> nat \<Rightarrow> string list \<Rightarrow> nat \<Rightarrow> string list" where
  "add_split paths entries n shards splits i =
    (let split = deref paths (entries ! ((i + 1) * n div shards)) in
     case find_last_of CHR ''/'' split of
       None \<Rightarrow> splits
     | Some pos \<Rightarrow>
         (let split' = take pos split in
          if split' > last splits then splits @ [split'] else splits))"

text \<open>Line 547: the number of shards aimed at.\<close>

definition shards_for :: "nat \<Rightarrow> nat \<Rightarrow> nat" where
  "shards_for n num_threads = min (n div kEntriesPerShard + 1) num_threads"

text \<open>
  The number of shards in the words of the specification, for comparison:
  \<open>min(\<lceil>N/512\<rceil> + 1, pool_size)\<close>, with the quotient rounded up.
\<close>

definition spec_shards :: "nat \<Rightarrow> nat \<Rightarrow> nat" where
  "spec_shards n num_threads =
    min ((n + kEntriesPerShard - 1) div kEntriesPerShard + 1) num_threads"

text \<open>
  \<open>Repo::UpdateSplits\<close> (lines 488-564), with \<open>num_threads\<close> for
  \<open>g_thread_pool->num_threads()\<close>. The result is how the call ends (\<open>None\<close>: it returns)
  and the repository as the call leaves it, also when it throws. The allocations that
  can be refused here are those of \<open>entries\<close> (line 502) and of \<open>patches\<close> (lines 506 and
  522), which come before and inside the block of the scope guard; the allocations for
  \<open>splits_\<close> come after that block and are taken to succeed. \<open>std::sort\<close> leaves the order
  of entries with equal bytes open, and the stable order is taken. The timestamp
  \<open>splits_ts_\<close> is not modelled. Sizes are natural numbers: \<open>8 * n\<close> and
  \<open>(i + 1) * n\<close> stay far below \<open>2^64\<close> for any index that fits in memory.
\<close>

definition UpdateSplits :: "allocator \<Rightarrow> nat \<Rightarrow> Repo \<Rightarrow> failure option \<times> Repo" where
  "UpdateSplits al num_threads r =
    (let n = length (m_index r) in
     if n \<le> kEntriesPerShard \<or> num_threads < 2 then (None, r\<lparr>m_splits := ['''', '''']\<rparr>)
     else if \<not> al n then (Some bad_alloc, r)
     else if \<not> al (8 * n) then (Some bad_alloc, r)
     else
       (case patch_paths al 0 (m_index r) \<lparr>elems = [], capacity = 8 * n\<rparr> of
          (paths, patches, PushThrew) \<Rightarrow>
            (Some bad_alloc, r\<lparr>m_index := restore paths patches\<rparr>)
        | (paths, patches, SentinelFound) \<Rightarrow>
            (None, r\<lparr>m_index := restore paths patches, m_splits := ['''', '''']\<rparr>)
        | (paths, patches, Patched) \<Rightarrow>
            (let sorted_entries = sort_key (deref paths) (map Path [0..<n]);
                 entries = safe_points paths 0 sorted_entries Literal_empty Literal_empty;
                 restored = restore paths patches;
                 shards = shards_for n num_threads;
                 splits = foldl (add_split restored entries n shards) [''''] [0..<shards - 1]
             in if \<not> length splits \<le> shards
                  then (Some CheckFailed, r\<lparr>m_index := restored, m_splits := splits\<rparr>)
                else if \<not> sorted splits
                  then (Some CheckFailed, r\<lparr>m_index := restored, m_splits := splits\<rparr>)
                else (None, r\<lparr>m_index := restored, m_splits := splits @ ['''']\<rparr>))))"

text \<open>
  The shape of a shard table: it starts and ends with the empty string, and the boundaries
  before the closing one ascend strictly. \<open>building\<close> is the table before line 563
  appends the closing boundary.
\<close>

definition splits_inv :: "string list \<Rightarrow> bool" where
  "splits_inv s = (s \<noteq> [] \<and> hd s = [] \<and> last s = [] \<and> sorted_wrt (<) (butlast s))"

definition building :: "string list \<Rightarrow> bool" where
  "building s = (s \<noteq> [] \<and> hd s = [] \<and> sorted_wrt (<) s)"

definition slashes :: "string \<Rightarrow> nat" where
  "slashes p = length (filter (\<lambda>c. c = CHR ''/'') p)"

subsection \<open>Scheduling and the worker threads\<close>

text \<open>Sequencing: a failure of the first part is the failure of the whole.\<close>

fun and_then :: "failure + 'a \<Rightarrow> ('a \<Rightarrow> failure + 'b) \<Rightarrow> failure + 'b" where
  "and_then (Inl e) f = Inl e"
| "and_then (Inr a) f = f a"

definition kMaxWaitInflight :: int where
  "kMaxWaitInflight = 1"

text \<open>
  \<open>Repo::DecInflight\<close> (lines 568-572) and \<open>Repo::RunAsync\<close> (lines 574-595). A failure
  of \<open>Schedule\<close> itself is not modelled.
\<close>

definition DecInflight :: "Repo \<Rightarrow> failure + Repo" where
  "DecInflight r =
    (if \<not> m_inflight r > 0 then Inl CheckFailed
     else Inr (r\<lparr>m_inflight := m_inflight r - 1\<rparr>))"

definition RunAsync :: "task \<Rightarrow> Repo \<Rightarrow> Repo" where
  "RunAsync t r = r\<lparr>m_inflight := m_inflight r + 1, scheduled := scheduled r @ [t]\<rparr>"

text \<open>
  What a worker thread does to the repository in one step: a scan delivers a delta to its
  callback; a task ends (the scope guard of line 579 runs \<open>DecInflight\<close>); a task throws
  \<open>Exception\<close> (the scope guard runs \<open>DecInflight\<close> while the exception leaves the block);
  the handler of that exception latches the error flag (lines 582-588), which is a step
  of its own, so that other threads can act between the two; the task of lines 387-390
  gets past \<open>Wait(1)\<close>, rebuilds the shard table and ends. An exception of \<open>UpdateSplits\<close>
  in that task is not caught by line 581.
\<close>

datatype step =
  DirtyDelta git_diff_delta
| StagedDelta git_diff_delta
| TaskDone
| TaskThrew
| ErrorLatched
| RefreshRan

fun worker_step :: "allocator \<Rightarrow> nat \<Rightarrow> step \<Rightarrow> Repo \<Rightarrow> failure + Repo" where
  "worker_step al nt (DirtyDelta d) r = Inr (snd (dirty_notify_cb d r))"
| "worker_step al nt (StagedDelta d) r = Inr (snd (staged_notify_cb d r))"
| "worker_step al nt TaskDone r = DecInflight r"
| "worker_step al nt TaskThrew r = DecInflight r"
| "worker_step al nt ErrorLatched r = Inr (r\<lparr>m_error := True\<rparr>)"
| "worker_step al nt RefreshRan r =
    (if m_inflight r = 1 then
       (case UpdateSplits al nt r of
          (Some e, _) \<Rightarrow> Inl e
        | (None, r') \<Rightarrow> DecInflight r')
     else if \<not> m_inflight r > 1 then Inl CheckFailed
     else Inl StillWaiting)"

text \<open>
  \<open>Repo::Wait(inflight)\<close> (lines 606-613), with the steps that the workers take while the
  caller waits. The default argument of \<open>Wait()\<close> is declared in \<^verbatim>\<open>git.h\<close>; it is 0, as
  in section 4.5 of the specification (the query first waits for \<open>inflight == 0\<close>).
\<close>

fun Wait_loop :: "allocator \<Rightarrow> nat \<Rightarrow> int \<Rightarrow> step list \<Rightarrow> Repo \<Rightarrow> failure + Repo" where
  "Wait_loop al nt inflight [] r =
    (if m_inflight r \<noteq> inflight then
       (if \<not> m_inflight r > inflight then Inl CheckFailed else Inl StillWaiting)
     else Inr r)"
| "Wait_loop al nt inflight (s # ss) r =
    (if m_inflight r \<noteq> inflight then
       (if \<not> m_inflight r > inflight then Inl CheckFailed
        else and_then (worker_step al nt s r) (Wait_loop al nt inflight ss))
     else Inr r)"

definition Wait :: "allocator \<Rightarrow> nat \<Rightarrow> int \<Rightarrow> step list \<Rightarrow> Repo \<Rightarrow> failure + Repo" where
  "Wait al nt inflight ss r =
    (if \<not> inflight \<le> kMaxWaitInflight then Inl CheckFailed
     else Wait_loop al nt inflight ss r)"

text \<open>Steps taken by the workers while the caller does not wait.\<close>

fun run_steps :: "allocator \<Rightarrow> nat \<Rightarrow> step list \<Rightarrow> Repo \<Rightarrow> failure + Repo" where
  "run_steps al nt [] r = Inr r"
| "run_steps al nt (s # ss) r = and_then (worker_step al nt s r) (run_steps al nt ss)"

subsection \<open>The fast path (Repo::UpdateKnown)\<close>

text \<open>The values of \<open>git_status_t\<close> in libgit2 that lines 349-355 use.\<close>

definition GIT_STATUS_INDEX_NEW :: "32 word" where "GIT_STATUS_INDEX_NEW = 1"
definition GIT_STATUS_INDEX_MODIFIED :: "32 word" where "GIT_STATUS_INDEX_MODIFIED = 2"
definition GIT_STATUS_INDEX_DELETED :: "32 word" where "GIT_STATUS_INDEX_DELETED = 4"
definition GIT_STATUS_INDEX_RENAMED :: "32 word" where "GIT_STATUS_INDEX_RENAMED = 8"
definition GIT_STATUS_INDEX_TYPECHANGE :: "32 word" where "GIT_STATUS_INDEX_TYPECHANGE = 16"
definition GIT_STATUS_WT_NEW :: "32 word" where "GIT_STATUS_WT_NEW = 128"
definition GIT_STATUS_WT_MODIFIED :: "32 word" where "GIT_STATUS_WT_MODIFIED = 256"
definition GIT_STATUS_WT_DELETED :: "32 word" where "GIT_STATUS_WT_DELETED = 512"
definition GIT_STATUS_WT_TYPECHANGE :: "32 word" where "GIT_STATUS_WT_TYPECHANGE = 1024"
definition GIT_STATUS_WT_RENAMED :: "32 word" where "GIT_STATUS_WT_RENAMED = 2048"
definition GIT_STATUS_CONFLICTED :: "32 word" where "GIT_STATUS_CONFLICTED = 32768"

definition staged_mask :: "32 word" where
  "staged_mask =
    GIT_STATUS_INDEX_NEW OR GIT_STATUS_INDEX_MODIFIED OR GIT_STATUS_INDEX_DELETED
    OR GIT_STATUS_INDEX_RENAMED OR GIT_STATUS_INDEX_TYPECHANGE"

definition unstaged_mask :: "32 word" where
  "unstaged_mask =
    GIT_STATUS_WT_MODIFIED OR GIT_STATUS_WT_DELETED OR GIT_STATUS_WT_TYPECHANGE
    OR GIT_STATUS_WT_RENAMED OR GIT_STATUS_CONFLICTED"

definition untracked_mask :: "32 word" where
  "untracked_mask = GIT_STATUS_WT_NEW"

text \<open>The local \<open>struct File\<close> of lines 322-325.\<close>

record File =
  file_flags :: "32 word"
  file_path :: string

text \<open>
  The lambda \<open>Fetch\<close> (lines 327-334). \<open>status_file p\<close> is \<open>git_status_file\<close> on path
  \<open>p\<close>: the flags, or \<open>None\<close> when the call returns non-zero.
\<close>

definition Fetch :: "(string \<Rightarrow> 32 word option) \<Rightarrow> slot \<Rightarrow> Repo \<Rightarrow> File \<times> Repo" where
  "Fetch status_file file r =
    (if \<not> Empty (get_slot file r) then
       (case Clear (get_slot file r) of
          (p, f') \<Rightarrow>
            (\<lparr>file_flags = (case status_file p of None \<Rightarrow> 0 | Some fl \<Rightarrow> fl), file_path = p\<rparr>,
             set_slot file f' r))
     else (\<lparr>file_flags = 0, file_path = []\<rparr>, r))"

text \<open>The lambda \<open>Snatch\<close> (lines 338-347) on the array \<open>files\<close>.\<close>

fun Snatch :: "32 word \<Rightarrow> slot \<Rightarrow> File list \<Rightarrow> Repo \<Rightarrow> failure + File list \<times> Repo" where
  "Snatch msk file [] r = Inr ([], r)"
| "Snatch msk file (f # fs) r =
    (if file_flags f AND msk \<noteq> 0 then
       (case TrySet (file_path f) (get_slot file r) of
          (True, s') \<Rightarrow> Inr (f\<lparr>file_flags := 0\<rparr> # fs, set_slot file s' r)
        | (False, _) \<Rightarrow> Inl CheckFailed)
     else and_then (Snatch msk file fs r) (\<lambda>(fs', r'). Inr (f # fs', r')))"

definition UpdateKnown :: "(string \<Rightarrow> 32 word option) \<Rightarrow> Repo \<Rightarrow> failure + Repo" where
  "UpdateKnown status_file r =
    (case Fetch status_file staged r of (f1, r1) \<Rightarrow>
     case Fetch status_file unstaged r1 of (f2, r2) \<Rightarrow>
     case Fetch status_file untracked r2 of (f3, r3) \<Rightarrow>
       and_then (Snatch staged_mask staged [f1, f2, f3] r3) (\<lambda>(files, r4).
       and_then (Snatch unstaged_mask unstaged files r4) (\<lambda>(files, r5).
       and_then (Snatch untracked_mask untracked files r5) (\<lambda>(files, r6). Inr r6))))"

subsection \<open>The status query (Repo::GetIndexStats)\<close>

text \<open>
  The loops of lines 433 and 469 run over the adjacent pairs of the shard table. The table
  is not empty where they run: \<open>GetIndexStats\<close> builds it first.
\<close>

definition shard_ranges :: "string list \<Rightarrow> (string \<times> string) list" where
  "shard_ranges s = map (\<lambda>i. (s ! i, s ! (i + 1))) [0..<length s - 1]"

text \<open>\<open>Repo::StartDirtyScan\<close> (lines 404-450).\<close>

definition StartDirtyScan :: "Repo \<Rightarrow> Repo" where
  "StartDirtyScan r =
    (if \<not> Empty (m_unstaged r) \<and> \<not> Empty (m_untracked r) then r
     else foldl (\<lambda>r' (range_start, range_end).
              RunAsync (DirtyScan (Empty (m_untracked r)) range_start range_end) r')
            r (shard_ranges (m_splits r)))"

text \<open>
  \<open>Repo::StartStagedScan\<close> (lines 452-486). \<open>commit_tree head\<close> is whether both
  \<open>git_commit_lookup\<close> and \<open>git_commit_tree\<close> succeed.
\<close>

definition StartStagedScan :: "(git_oid \<Rightarrow> bool) \<Rightarrow> git_oid \<Rightarrow> Repo \<Rightarrow> failure + Repo" where
  "StartStagedScan commit_tree head r =
    (if \<not> Empty (m_staged r) then Inr r
     else if \<not> commit_tree head then Inl Exception
     else Inr (foldl (\<lambda>r' (range_start, range_end). RunAsync (StagedScan range_start range_end) r')
                 r (shard_ranges (m_splits r))))"

text \<open>The lambda \<open>Done\<close> (lines 368-371).\<close>

definition Done :: "git_oid option \<Rightarrow> bool \<Rightarrow> Repo \<Rightarrow> bool" where
  "Done head scan_dirty r =
    ((head = None \<or> \<not> Empty (m_staged r))
     \<and> (\<not> scan_dirty \<or> (\<not> Empty (m_unstaged r) \<and> \<not> Empty (m_untracked r))))"

text \<open>The loop of line 382, with the steps that the workers take while the caller waits.\<close>

fun wait_scans ::
  "allocator \<Rightarrow> nat \<Rightarrow> git_oid option \<Rightarrow> bool \<Rightarrow> step list \<Rightarrow> Repo \<Rightarrow> failure + Repo"
where
  "wait_scans al nt head scan_dirty [] r =
    (if m_inflight r \<noteq> 0 \<and> \<not> m_error r \<and> \<not> Done head scan_dirty r then Inl StillWaiting
     else Inr r)"
| "wait_scans al nt head scan_dirty (s # ss) r =
    (if m_inflight r \<noteq> 0 \<and> \<not> m_error r \<and> \<not> Done head scan_dirty r
     then and_then (worker_step al nt s r) (wait_scans al nt head scan_dirty ss)
     else Inr r)"

text \<open>
  What the surroundings answer during one call of \<open>GetIndexStats\<close>: the allocator and the
  size of the thread pool; the paths of the index that \<open>git_index_read\<close> leaves in memory
  (\<open>None\<close> when it fails); \<open>git_status_file\<close>; whether the commit and its tree can be
  looked up; whether line 386 finds the shard table older than \<open>kSplitUpdatePeriod\<close>; and
  the steps of the worker threads while the caller is in \<open>Wait()\<close> (line 359), while it is
  in the loop of line 382, and between that loop and the reading of the result.
\<close>

record environment =
  allocate :: allocator
  num_threads :: nat
  git_index_read :: "string list option"
  git_status_file :: "string \<Rightarrow> 32 word option"
  commit_tree :: "git_oid \<Rightarrow> bool"
  splits_stale :: bool
  drain_steps :: "step list"
  scan_steps :: "step list"
  late_steps :: "step list"

text \<open>
  Lines 375-384 of \<open>GetIndexStats\<close>: the scans are started and the caller waits; then
  come the steps that the workers take before the caller reads the result.
\<close>

definition run_scans :: "environment \<Rightarrow> git_oid option \<Rightarrow> bool \<Rightarrow> Repo \<Rightarrow> failure + Repo" where
  "run_scans env head scan_dirty r =
    (if \<not> Done head scan_dirty r then
       (if \<not> m_inflight r = 0 then Inl CheckFailed
        else
          and_then
            (case head of
               None \<Rightarrow> Inr (if scan_dirty then StartDirtyScan r else r)
             | Some h \<Rightarrow>
                 StartStagedScan (commit_tree env) h (if scan_dirty then StartDirtyScan r else r))
            (\<lambda>r2.
          and_then
            (wait_scans (allocate env) (num_threads env) head scan_dirty (scan_steps env) r2)
            (run_steps (allocate env) (num_threads env) (late_steps env))))
     else Inr r)"

text \<open>Lines 395-401 of \<open>GetIndexStats\<close>: the result, read from the repository.\<close>

definition report :: "git_oid option \<Rightarrow> nat \<Rightarrow> bool \<Rightarrow> Repo \<Rightarrow> IndexStats" where
  "report head index_size scan_dirty r =
    \<lparr>has_staged = (\<not> Empty (m_staged r) \<or> (head = None \<and> index_size \<noteq> 0)),
     has_unstaged =
       (if \<not> Empty (m_unstaged r) then kTrue else if scan_dirty then kFalse else kUnknown),
     has_untracked =
       (if \<not> Empty (m_untracked r) then kTrue else if scan_dirty then kFalse else kUnknown)\<rparr>"

text \<open>Lines 365-401 of \<open>GetIndexStats\<close>: the scans and the result.\<close>

definition scan_and_report ::
  "environment \<Rightarrow> git_oid option \<Rightarrow> nat \<Rightarrow> Repo \<Rightarrow> failure + IndexStats \<times> Repo"
where
  "scan_and_report env head dirty_max_index_size r =
    (let index_size = length (m_index r);
         scan_dirty = (index_size \<le> dirty_max_index_size)
     in
     and_then (run_scans env head scan_dirty r) (\<lambda>r3.
       (let r4 = (if splits_stale env then RunAsync RefreshSplits r3 else r3) in
        if m_error r4 then Inl Exception
        else Inr (report head index_size scan_dirty r4, r4))))"

text \<open>\<open>Repo::GetIndexStats\<close> (lines 358-402).\<close>

definition GetIndexStats ::
  "environment \<Rightarrow> git_oid option \<Rightarrow> nat \<Rightarrow> Repo \<Rightarrow> failure + IndexStats \<times> Repo"
where
  "GetIndexStats env head dirty_max_index_size r =
    and_then (Wait (allocate env) (num_threads env) 0 (drain_steps env) r) (\<lambda>r1.
      (case git_index_read env of
         None \<Rightarrow> Inl Exception
       | Some paths \<Rightarrow>
           (let r2 = r1\<lparr>m_index := paths\<rparr> in
            case (if m_splits r2 = [] then UpdateSplits (allocate env) (num_threads env) r2
                  else (None, r2)) of
              (Some e, _) \<Rightarrow> Inl e
            | (None, r3) \<Rightarrow>
                and_then (UpdateKnown (git_status_file env) (r3\<lparr>m_error := False\<rparr>))
                  (scan_and_report env head dirty_max_index_size))))"

subsection \<open>Repositories and surroundings used as examples\<close>

definition empty_repo :: Repo where
  "empty_repo =
    \<lparr>m_index = [], m_staged = None, m_unstaged = None, m_untracked = None,
     m_splits = [], m_inflight = 0, m_error = False, scheduled = []\<rparr>"

text \<open>
  Surroundings in which nothing fails and no worker takes a step, for an index with the
  given paths.
\<close>

definition quiet :: "string list \<Rightarrow> environment" where
  "quiet paths =
    \<lparr>allocate = (\<lambda>_. True), num_threads = 4, git_index_read = Some paths,
     git_status_file = (\<lambda>_. Some 0), commit_tree = (\<lambda>_. True), splits_stale = False,
     drain_steps = [], scan_steps = [], late_steps = []\<rparr>"

text \<open>
  An index of 513 entries, each nine directories deep:
  \<open>a/b/c/d/e/f/g/h/i/f000\<close> to \<open>a/b/c/d/e/f/g/h/i/f512\<close>.
\<close>

definition digit :: "nat \<Rightarrow> char" where
  "digit d = ''0123456789'' ! (d mod 10)"

definition name3 :: "nat \<Rightarrow> string" where
  "name3 k = [digit (k div 100), digit (k div 10), digit k]"

definition deep_path :: "nat \<Rightarrow> string" where
  "deep_path k = ''a/b/c/d/e/f/g/h/i/f'' @ name3 k"

definition deep_paths :: "string list" where
  "deep_paths = map deep_path [0..<513]"

definition deep_repo :: Repo where
  "deep_repo = empty_repo\<lparr>m_index := deep_paths\<rparr>"

text \<open>An allocator that grants room for at most 4104 pointers at a time.\<close>

definition tight_allocator :: allocator where
  "tight_allocator k = (k \<le> 4104)"

text \<open>
  Scenario 6 of the specification: no HEAD, and an index with the single entry \<open>hello\<close>.
  The one dirty scan ends without a delta.
\<close>

definition hello_repo :: Repo where
  "hello_repo = empty_repo\<lparr>m_index := [''hello'']\<rparr>"

definition hello_env :: environment where
  "hello_env = (quiet [''hello''])\<lparr>scan_steps := [TaskDone]\<rparr>"

text \<open>
  A repository whose previous query found the unstaged file \<open>a\<close>, which is still modified
  in the working tree; the index has two entries.
\<close>

definition modified_repo :: Repo where
  "modified_repo = empty_repo\<lparr>m_index := [''a'', ''b''], m_unstaged := Some ''a'', m_splits := ['''', '''']\<rparr>"

definition modified_env :: environment where
  "modified_env = (quiet [''a'', ''b''])
     \<lparr>git_status_file := (\<lambda>p. if p = ''a'' then Some GIT_STATUS_WT_MODIFIED else Some 0),
      scan_steps := [TaskDone]\<rparr>"

text \<open>
  A repository whose previous query found the staged file \<open>x/y.c\<close>, which is still staged.
\<close>

definition staged_repo :: Repo where
  "staged_repo = empty_repo\<lparr>m_index := [''x/y.c''], m_staged := Some ''x/y.c'', m_splits := ['''', '''']\<rparr>"

definition staged_env :: environment where
  "staged_env = (quiet [''x/y.c''])
     \<lparr>git_status_file := (\<lambda>p. if p = ''x/y.c'' then Some GIT_STATUS_INDEX_MODIFIED else Some 0),
      scan_steps := [TaskDone]\<rparr>"

text \<open>The index \<open>deep_paths\<close> followed by a path that holds the byte 1.\<close>

definition sentinel_repo :: Repo where
  "sentinel_repo = empty_repo\<lparr>m_index := deep_paths @ [[CHR ''z'', CHR 0x01, CHR ''z'']]\<rparr>"

text \<open>Two deltas as libgit2 hands them to the callback of the dirty scan.\<close>

definition untracked_delta :: git_diff_delta where
  "untracked_delta = \<lparr>status = GIT_DELTA_UNTRACKED, new_file_path = ''new.txt''\<rparr>"

definition modified_delta :: git_diff_delta where
  "modified_delta = \<lparr>status = GIT_DELTA_MODIFIED, new_file_path = ''a.c''\<rparr>"

subsection \<open>Notions used to state the properties\<close>

text \<open>The kind of a task handed to the pool.\<close>

fun is_StagedScan :: "task \<Rightarrow> bool" where
  "is_StagedScan (StagedScan _ _) = True"
| "is_StagedScan _ = False"

fun is_DirtyScan :: "task \<Rightarrow> bool" where
  "is_DirtyScan (DirtyScan _ _ _) = True"
| "is_DirtyScan _ = False"

text \<open>
  \<open>splits_ok\<close>: the shard table is empty (a repository that has not been queried yet) or
  has the shape \<open>splits_inv\<close>.
  \<open>keeps r r'\<close>: what every step of a worker thread preserves. The tasks handed to the
  pool and the index are the same, a filled slot stays as it is, \<open>m_inflight\<close> does not
  become negative, and the shard table keeps its shape.
  \<open>launch ts r\<close>: the tasks \<open>ts\<close> have been passed to \<open>RunAsync\<close>, in this order.
  \<open>same_but_slots r r'\<close>: \<open>r'\<close> differs from \<open>r\<close> in the three slots at most.
\<close>

definition splits_ok :: "Repo \<Rightarrow> bool" where
  "splits_ok r = (m_splits r = [] \<or> splits_inv (m_splits r))"

definition keeps :: "Repo \<Rightarrow> Repo \<Rightarrow> bool" where
  "keeps r r' =
    (scheduled r' = scheduled r \<and> m_index r' = m_index r
     \<and> (m_staged r \<noteq> None \<longrightarrow> m_staged r' = m_staged r)
     \<and> (m_unstaged r \<noteq> None \<longrightarrow> m_unstaged r' = m_unstaged r)
     \<and> (m_untracked r \<noteq> None \<longrightarrow> m_untracked r' = m_untracked r)
     \<and> (0 \<le> m_inflight r \<longrightarrow> 0 \<le> m_inflight r')
     \<and> (splits_ok r \<longrightarrow> splits_ok r')
     \<and> (splits_inv (m_splits r) \<longrightarrow> splits_inv (m_splits r')))"

definition launch :: "task list \<Rightarrow> Repo \<Rightarrow> Repo" where
  "launch ts r = r\<lparr>m_inflight := m_inflight r + int (length ts), scheduled := scheduled r @ ts\<rparr>"

definition same_but_slots :: "Repo \<Rightarrow> Repo \<Rightarrow> bool" where
  "same_but_slots r r' =
    (m_index r' = m_index r \<and> m_splits r' = m_splits r \<and> m_inflight r' = m_inflight r
     \<and> m_error r' = m_error r \<and> scheduled r' = scheduled r)"

section \<open>Properties\<close>

subsection \<open>The tag finder\<close>

text \<open>
  A reference that \<open>git_refdb_lookup\<close> returns under the name asked for is found again
  by every iteration of the loop, so a symbolic tag never matches.
\<close>

lemma TagHasTarget_loop_same:
  "lookup (ref_name ref) = Some ref \<Longrightarrow> ref_target ref = Symbolic t
   \<Longrightarrow> TagHasTarget_loop lookup k ref = Some ref"
  by (induction k) auto

lemma TagHasTarget_symbolic_never:
  assumes "git_refdb_lookup be name = Some ref" "ref_name ref = name" "ref_target ref = Symbolic t"
  shows "\<not> TagHasTarget be name target"
  using assms TagHasTarget_loop_same [of "git_refdb_lookup be" ref t 10]
  by (simp add: TagHasTarget_def)

lemma TagHasTarget_direct_agrees:
  assumes "git_refdb_lookup be name = Some ref" "ref_target ref = Direct oid"
  shows "TagHasTarget be name target = spec_TagHasTarget be name target"
  using assms
  by (auto simp: TagHasTarget_def spec_TagHasTarget_def eval_nat_numeral split: option.splits)

text \<open>
  C9: the tag finder resolves the symbolic chain of each reference under \<open>refs/tags/\<close>
  for at most 10 hops, matches a reference whose direct target or whose peeled tag's
  target is the given object id, and returns the short name of the first match.
  In the repository \<open>alias_repo\<close> the tag \<open>alias\<close> is one hop away from a direct reference
  to \<open>c1\<close>. The specification says that it matches and that the finder returns
  \<open>alias\<close>; the code looks up the name of the tag again in every iteration, is left with a
  symbolic reference after 10 iterations, and returns the empty string.
\<close>

theorem GetTagName_symbolic_tag_not_resolved:
  "GetTagName alias_repo (Some ''c1'') = Inr ''''
   \<and> \<not> TagHasTarget alias_repo ''refs/tags/alias'' ''c1''
   \<and> spec_TagHasTarget alias_repo ''refs/tags/alias'' ''c1''
   \<and> spec_GetTagName_loop alias_repo [Some ''refs/tags/alias''] ''c1'' = ''alias''"
  by (simp add: GetTagName_def TagHasTarget_def spec_TagHasTarget_def alias_repo_def alias_refs_def
      kTagPrefix_def eval_nat_numeral)

subsection \<open>The shard table\<close>

lemma strict_sorted_le_last:
  fixes xs :: "string list"
  shows "sorted_wrt (<) xs \<Longrightarrow> y \<in> set xs \<Longrightarrow> y \<le> last xs"
  by (induction xs) (auto simp: less_imp_le)

lemma sorted_wrt_snoc_last:
  fixes xs :: "string list"
  assumes "sorted_wrt (<) xs" "xs \<noteq> []" "last xs < x"
  shows "sorted_wrt (<) (xs @ [x])"
  using assms strict_sorted_le_last [of xs]
  by (auto simp: sorted_wrt_append intro: le_less_trans)

lemma add_split_building:
  "building s \<Longrightarrow> building (add_split paths entries n shards s i)"
  by (auto simp: building_def add_split_def Let_def sorted_wrt_snoc_last split: option.splits)

lemma add_split_length:
  "length (add_split paths entries n shards s i) \<le> Suc (length s)"
  by (auto simp: add_split_def Let_def split: option.splits)

lemma foldl_add_split_building:
  "building s \<Longrightarrow> building (foldl (add_split paths entries n shards) s js)"
  by (induction js arbitrary: s) (auto simp: add_split_building)

lemma foldl_add_split_length:
  "length (foldl (add_split paths entries n shards) s js) \<le> length s + length js"
proof (induction js arbitrary: s)
  case Nil
  then show ?case by simp
next
  case (Cons j js)
  have "length (foldl (add_split paths entries n shards) (add_split paths entries n shards s j) js)
        \<le> length (add_split paths entries n shards s j) + length js"
    by (rule Cons.IH)
  also have "\<dots> \<le> Suc (length s) + length js"
    using add_split_length [of paths entries n shards s j] by simp
  finally show ?case by simp
qed

lemma building_sorted:
  "building s \<Longrightarrow> sorted s"
  unfolding building_def
  by (auto intro: sorted_wrt_mono_rel [of s "(<)" "(\<le>)"] simp: less_imp_le)

lemma building_splits_inv:
  "building s \<Longrightarrow> splits_inv (s @ [[]])"
  by (auto simp: building_def splits_inv_def)

lemma shards_for_ge2:
  "kEntriesPerShard < n \<Longrightarrow> 2 \<le> nt \<Longrightarrow> 2 \<le> shards_for n nt"
  unfolding shards_for_def kEntriesPerShard_def
proof -
  assume a: "512 < n" "2 \<le> nt"
  then have "1 \<le> n div 512" by (simp add: Suc_le_eq div_greater_zero_iff)
  with a show "2 \<le> min (n div 512 + 1) nt" by simp
qed

lemma push_back_elems:
  "push_back al p v = Some v' \<Longrightarrow> elems v' = elems v @ [p]"
  by (auto simp: push_back_def Let_def split: if_splits)

lemma poke_at:
  "i < length m \<Longrightarrow> m ! i = pre @ c # cs \<Longrightarrow>
   poke m (i, length pre) = m[i := pre @ CHR ''/'' # cs]"
  by (simp add: poke_def list_update_append)

lemma self_update: "m ! i = x \<Longrightarrow> m = m[i := x]"
  by (metis list_update_id)

lemma patch_path_restore:
  "patch_path al i j cs v = (cs', v', ok) \<Longrightarrow>
   \<exists>new res. elems v' = elems v @ new
     \<and> (ok \<longrightarrow> res = cs)
     \<and> (\<not> ok \<longrightarrow> (\<exists>k < length cs. cs ! k = CHR ''/'' \<and> res = cs[k := CHR 0x01]))
     \<and> (\<forall>m pre. i < length m \<longrightarrow> m ! i = pre @ cs' \<longrightarrow> length pre = j
            \<longrightarrow> foldl poke m new = m[i := pre @ res])"
proof (induction cs arbitrary: j v cs' v' ok)
  case Nil
  then show ?case
    by (auto intro!: exI [of _ "[]"] simp: list_update_same_conv)
next
  case (Cons c cs)
  show ?case
  proof (cases "c = CHR ''/''")
    case False
    obtain cs1 v1 ok1 where rec: "patch_path al i (Suc j) cs v = (cs1, v1, ok1)"
      by (cases "patch_path al i (Suc j) cs v") auto
    with Cons.prems False have eq: "cs' = c # cs1" "v' = v1" "ok = ok1" by auto
    from Cons.IH [OF rec] obtain new res where
      n: "elems v1 = elems v @ new"
      and r1: "ok1 \<longrightarrow> res = cs"
      and r2: "\<not> ok1 \<longrightarrow> (\<exists>k < length cs. cs ! k = CHR ''/'' \<and> res = cs[k := CHR 0x01])"
      and f: "\<forall>m pre. i < length m \<longrightarrow> m ! i = pre @ cs1 \<longrightarrow> length pre = Suc j
            \<longrightarrow> foldl poke m new = m[i := pre @ res]"
      by blast
    have "\<not> ok \<longrightarrow> (\<exists>k < length (c # cs). (c # cs) ! k = CHR ''/'' \<and> c # res = (c # cs)[k := CHR 0x01])"
    proof
      assume "\<not> ok"
      with r2 eq obtain k where "k < length cs" "cs ! k = CHR ''/''" "res = cs[k := CHR 0x01]" by auto
      then have "Suc k < length (c # cs) \<and> (c # cs) ! Suc k = CHR ''/'' \<and> c # res = (c # cs)[Suc k := CHR 0x01]"
        by simp
      then show "\<exists>k < length (c # cs). (c # cs) ! k = CHR ''/'' \<and> c # res = (c # cs)[k := CHR 0x01]"
        by blast
    qed
    moreover have "\<forall>m pre. i < length m \<longrightarrow> m ! i = pre @ cs' \<longrightarrow> length pre = j
            \<longrightarrow> foldl poke m new = m[i := pre @ c # res]"
    proof (intro allI impI)
      fix m :: "string list" and pre :: string
      assume a: "i < length m" "m ! i = pre @ cs'" "length pre = j"
      then have "m ! i = (pre @ [c]) @ cs1" "length (pre @ [c]) = Suc j" using eq by auto
      with f a(1) have "foldl poke m new = m[i := (pre @ [c]) @ res]" by blast
      then show "foldl poke m new = m[i := pre @ c # res]" by simp
    qed
    ultimately show ?thesis using n r1 eq
      by (intro exI [of _ new] exI [of _ "c # res"]) auto
  next
    case True
    show ?thesis
    proof (cases "push_back al (i, j) v")
      case None
      with Cons.prems True have eq: "cs' = CHR 0x01 # cs" "v' = v" "ok = False" by auto
      have "\<forall>m pre. i < length m \<longrightarrow> m ! i = pre @ cs' \<longrightarrow> length pre = j
            \<longrightarrow> foldl poke m [] = m[i := pre @ (c # cs)[0 := CHR 0x01]]"
        using eq by (auto intro: self_update)
      then show ?thesis using eq True
        by (intro exI [of _ "[]"] exI [of _ "(c # cs)[0 := CHR 0x01]"]) auto
    next
      case (Some v0)
      obtain cs1 v1 ok1 where rec: "patch_path al i (Suc j) cs v0 = (cs1, v1, ok1)"
        by (cases "patch_path al i (Suc j) cs v0") auto
      with Cons.prems True Some have eq: "cs' = CHR 0x01 # cs1" "v' = v1" "ok = ok1" by auto
      from Cons.IH [OF rec] obtain new res where
        n: "elems v1 = elems v0 @ new"
        and r1: "ok1 \<longrightarrow> res = cs"
        and r2: "\<not> ok1 \<longrightarrow> (\<exists>k < length cs. cs ! k = CHR ''/'' \<and> res = cs[k := CHR 0x01])"
        and f: "\<forall>m pre. i < length m \<longrightarrow> m ! i = pre @ cs1 \<longrightarrow> length pre = Suc j
              \<longrightarrow> foldl poke m new = m[i := pre @ res]"
        by blast
      have n': "elems v' = elems v @ ((i, j) # new)"
        using n eq push_back_elems [OF Some] by simp
      have "\<not> ok \<longrightarrow> (\<exists>k < length (c # cs). (c # cs) ! k = CHR ''/'' \<and> c # res = (c # cs)[k := CHR 0x01])"
      proof
        assume "\<not> ok"
        with r2 eq obtain k where "k < length cs" "cs ! k = CHR ''/''" "res = cs[k := CHR 0x01]" by auto
        then have "Suc k < length (c # cs) \<and> (c # cs) ! Suc k = CHR ''/'' \<and> c # res = (c # cs)[Suc k := CHR 0x01]"
          by simp
        then show "\<exists>k < length (c # cs). (c # cs) ! k = CHR ''/'' \<and> c # res = (c # cs)[k := CHR 0x01]"
          by blast
      qed
      moreover have "\<forall>m pre. i < length m \<longrightarrow> m ! i = pre @ cs' \<longrightarrow> length pre = j
            \<longrightarrow> foldl poke m ((i, j) # new) = m[i := pre @ c # res]"
      proof (intro allI impI)
        fix m :: "string list" and pre :: string
        assume a: "i < length m" "m ! i = pre @ cs'" "length pre = j"
        let ?m = "m[i := pre @ CHR ''/'' # cs1]"
        have p: "poke m (i, j) = ?m"
          using poke_at [of i m pre "CHR 0x01" cs1] a eq by simp
        have "?m ! i = (pre @ [c]) @ cs1" "length (pre @ [c]) = Suc j" "i < length ?m"
          using a True by auto
        with f have "foldl poke ?m new = ?m[i := (pre @ [c]) @ res]" by blast
        then show "foldl poke m ((i, j) # new) = m[i := pre @ c # res]"
          using p by simp
      qed
      ultimately show ?thesis using n' r1 eq
        by (intro exI [of _ "(i, j) # new"] exI [of _ "c # res"]) auto
    qed
  qed
qed

lemma patch_paths_restore:
  "patch_paths al i ps v = (ps', v', ex) \<Longrightarrow>
   \<exists>new res. elems v' = elems v @ new
     \<and> (ex \<noteq> PushThrew \<longrightarrow> res = ps)
     \<and> (ex = PushThrew \<longrightarrow>
          (\<exists>a k. a < length ps \<and> k < length (ps ! a) \<and> ps ! a ! k = CHR ''/''
             \<and> res = ps[a := (ps ! a)[k := CHR 0x01]]))
     \<and> (\<forall>pre suf. length pre = i \<longrightarrow> foldl poke (pre @ ps' @ suf) new = pre @ res @ suf)"
proof (induction ps arbitrary: i v ps' v' ex)
  case Nil
  then have "ps' = []" "v' = v" "ex = Patched" by simp_all
  then show ?case by (intro exI [of _ "[]"]) simp
next
  case (Cons p ps)
  show ?case
  proof (cases "CHR 0x01 \<in> set p")
    case True
    with Cons.prems have "ps' = p # ps" "v' = v" "ex = SentinelFound" by simp_all
    then show ?thesis
      by (intro exI [of _ "[]"] exI [of _ "p # ps"]) simp
  next
    case False
    obtain p1 v1 ok where pp: "patch_path al i 0 p v = (p1, v1, ok)"
      by (cases "patch_path al i 0 p v") auto
    from patch_path_restore [OF pp] obtain new1 res1 where
      n1: "elems v1 = elems v @ new1"
      and ok1: "ok \<longrightarrow> res1 = p"
      and bad1: "\<not> ok \<longrightarrow> (\<exists>k < length p. p ! k = CHR ''/'' \<and> res1 = p[k := CHR 0x01])"
      and f1: "\<forall>m pre. i < length m \<longrightarrow> m ! i = pre @ p1 \<longrightarrow> length pre = 0
              \<longrightarrow> foldl poke m new1 = m[i := pre @ res1]"
      by blast
    have f1': "foldl poke (pre @ p1 # rest) new1 = pre @ res1 # rest" if "length pre = i" for pre rest
    proof -
      have "i < length (pre @ p1 # rest)" "(pre @ p1 # rest) ! i = [] @ p1" "length ([] :: string) = 0"
        using that by (simp_all add: nth_append)
      with f1 have "foldl poke (pre @ p1 # rest) new1 = (pre @ p1 # rest)[i := [] @ res1]"
        by blast
      then show ?thesis using that by (simp add: list_update_append)
    qed
    show ?thesis
    proof (cases ok)
      case False
      with Cons.prems \<open>CHR 0x01 \<notin> set p\<close> pp
      have eq: "ps' = p1 # ps" "v' = v1" "ex = PushThrew" by simp_all
      from bad1 False obtain k where k: "k < length p" "p ! k = CHR ''/''" "res1 = p[k := CHR 0x01]"
        by blast
      then have "0 < length (p # ps) \<and> k < length ((p # ps) ! 0) \<and> (p # ps) ! 0 ! k = CHR ''/''
          \<and> res1 # ps = (p # ps)[0 := ((p # ps) ! 0)[k := CHR 0x01]]"
        by simp
      then have B: "\<exists>a k. a < length (p # ps) \<and> k < length ((p # ps) ! a) \<and> (p # ps) ! a ! k = CHR ''/''
          \<and> res1 # ps = (p # ps)[a := ((p # ps) ! a)[k := CHR 0x01]]"
        by blast
      have A: "elems v' = elems v @ new1" using n1 eq by simp
      have D: "\<forall>pre suf. length pre = i
          \<longrightarrow> foldl poke (pre @ ps' @ suf) new1 = pre @ (res1 # ps) @ suf"
        using f1' eq by simp
      show ?thesis
        apply (rule exI [of _ new1])
        apply (rule exI [of _ "res1 # ps"])
        using A B D eq(3) apply blast
        done
    next
      case True
      obtain ps2 v2 ex2 where rec: "patch_paths al (Suc i) ps v1 = (ps2, v2, ex2)"
        by (cases "patch_paths al (Suc i) ps v1") auto
      with Cons.prems \<open>CHR 0x01 \<notin> set p\<close> pp True
      have eq: "ps' = p1 # ps2" "v' = v2" "ex = ex2" by simp_all
      from Cons.IH [OF rec] obtain new2 res2 where
        n2: "elems v2 = elems v1 @ new2"
        and ok2: "ex2 \<noteq> PushThrew \<longrightarrow> res2 = ps"
        and bad2: "ex2 = PushThrew \<longrightarrow>
          (\<exists>a k. a < length ps \<and> k < length (ps ! a) \<and> ps ! a ! k = CHR ''/''
             \<and> res2 = ps[a := (ps ! a)[k := CHR 0x01]])"
        and f2: "\<forall>pre suf. length pre = Suc i \<longrightarrow> foldl poke (pre @ ps2 @ suf) new2 = pre @ res2 @ suf"
        by blast
      have r1: "res1 = p" using ok1 True by simp
      have A: "elems v' = elems v @ (new1 @ new2)" using n1 n2 eq by simp
      have C: "ex \<noteq> PushThrew \<longrightarrow> p # res2 = p # ps" using ok2 eq by simp
      have B: "ex = PushThrew \<longrightarrow>
          (\<exists>a k. a < length (p # ps) \<and> k < length ((p # ps) ! a) \<and> (p # ps) ! a ! k = CHR ''/''
             \<and> p # res2 = (p # ps)[a := ((p # ps) ! a)[k := CHR 0x01]])"
      proof
        assume "ex = PushThrew"
        with bad2 eq obtain a k where "a < length ps" "k < length (ps ! a)" "ps ! a ! k = CHR ''/''"
          "res2 = ps[a := (ps ! a)[k := CHR 0x01]]" by auto
        then have "Suc a < length (p # ps) \<and> k < length ((p # ps) ! Suc a)
            \<and> (p # ps) ! Suc a ! k = CHR ''/''
            \<and> p # res2 = (p # ps)[Suc a := ((p # ps) ! Suc a)[k := CHR 0x01]]"
          by simp
        then show "\<exists>a k. a < length (p # ps) \<and> k < length ((p # ps) ! a) \<and> (p # ps) ! a ! k = CHR ''/''
             \<and> p # res2 = (p # ps)[a := ((p # ps) ! a)[k := CHR 0x01]]"
          by blast
      qed
      have D: "\<forall>pre suf. length pre = i
          \<longrightarrow> foldl poke (pre @ ps' @ suf) (new1 @ new2) = pre @ (p # res2) @ suf"
      proof (intro allI impI)
        fix pre suf :: "string list"
        assume l: "length pre = i"
        have s1: "foldl poke (pre @ p1 # (ps2 @ suf)) new1 = pre @ p # (ps2 @ suf)"
          using f1' [OF l] r1 by simp
        have "length (pre @ [p]) = Suc i
            \<longrightarrow> foldl poke ((pre @ [p]) @ ps2 @ suf) new2 = (pre @ [p]) @ res2 @ suf"
          using f2 by blast
        then have s2: "foldl poke (pre @ p # (ps2 @ suf)) new2 = pre @ p # (res2 @ suf)"
          using l by simp
        show "foldl poke (pre @ ps' @ suf) (new1 @ new2) = pre @ (p # res2) @ suf"
          using eq s1 s2 by simp
      qed
      show ?thesis
        apply (rule exI [of _ "new1 @ new2"])
        apply (rule exI [of _ "p # res2"])
        using A B C D apply blast
        done
    qed
  qed
qed

lemma restore_after_patch_paths:
  assumes "patch_paths al 0 ps \<lparr>elems = [], capacity = c\<rparr> = (ps', v', ex)"
  shows "(ex \<noteq> PushThrew \<longrightarrow> restore ps' v' = ps)
       \<and> (ex = PushThrew \<longrightarrow>
            (\<exists>a k. a < length ps \<and> k < length (ps ! a) \<and> ps ! a ! k = CHR ''/''
               \<and> restore ps' v' = ps[a := (ps ! a)[k := CHR 0x01]]))"
proof -
  from patch_paths_restore [OF assms] obtain new res where
    n: "elems v' = elems \<lparr>elems = [], capacity = c\<rparr> @ new"
    and a: "ex \<noteq> PushThrew \<longrightarrow> res = ps"
    and b: "ex = PushThrew \<longrightarrow>
          (\<exists>a k. a < length ps \<and> k < length (ps ! a) \<and> ps ! a ! k = CHR ''/''
             \<and> res = ps[a := (ps ! a)[k := CHR 0x01]])"
    and f: "\<forall>pre suf. length pre = 0 \<longrightarrow> foldl poke (pre @ ps' @ suf) new = pre @ res @ suf"
    by (elim exE conjE) 
  have "length ([] :: string list) = 0 \<longrightarrow> foldl poke ([] @ ps' @ []) new = [] @ res @ []"
    using f by (elim allE)
  then have "restore ps' v' = res" using n by (simp add: restore_def)
  with a b show ?thesis by simp
qed

lemma push_back_granted:
  assumes "\<forall>k. al k"
  shows "\<exists>v'. push_back al p v = Some v'"
  using assms by (simp add: push_back_def Let_def)

lemma patch_path_granted:
  assumes "\<forall>k. al k"
  shows "snd (snd (patch_path al i j cs v))"
proof (induction cs arbitrary: j v)
  case Nil
  then show ?case by simp
next
  case (Cons c cs)
  obtain v0 where pb: "push_back al (i, j) v = Some v0"
    using push_back_granted [OF assms] by blast
  obtain a1 b1 c1 where r1: "patch_path al i (Suc j) cs v0 = (a1, b1, c1)"
    by (cases "patch_path al i (Suc j) cs v0") auto
  obtain a2 b2 c2 where r2: "patch_path al i (Suc j) cs v = (a2, b2, c2)"
    by (cases "patch_path al i (Suc j) cs v") auto
  have c1 using Cons.IH [of "Suc j" v0] r1 by simp
  moreover have c2 using Cons.IH [of "Suc j" v] r2 by simp
  ultimately show ?case using pb r1 r2 by simp
qed

lemma patch_paths_granted:
  assumes "\<forall>k. al k"
  shows "snd (snd (patch_paths al i ps v)) \<noteq> PushThrew"
proof (induction ps arbitrary: i v)
  case Nil
  then show ?case by simp
next
  case (Cons p ps)
  obtain p1 v1 ok where pp: "patch_path al i 0 p v = (p1, v1, ok)"
    by (cases "patch_path al i 0 p v") auto
  with patch_path_granted [OF assms, of i 0 p v] have ok: ok by simp
  obtain a2 b2 c2 where r2: "patch_paths al (Suc i) ps v1 = (a2, b2, c2)"
    by (cases "patch_paths al (Suc i) ps v1") auto
  have "c2 \<noteq> PushThrew" using Cons.IH [of "Suc i" v1] r2 by simp
  then show ?case using pp ok r2 by simp
qed

lemma patch_paths_sentinel:
  assumes "\<exists>p \<in> set ps. CHR 0x01 \<in> set p"
  shows "snd (snd (patch_paths al i ps v)) \<noteq> Patched"
  using assms
proof (induction ps arbitrary: i v)
  case Nil
  then show ?case by simp
next
  case (Cons p ps)
  show ?case
  proof (cases "CHR 0x01 \<in> set p")
    case True
    then show ?thesis by simp
  next
    case False
    with Cons.prems have rest: "\<exists>p \<in> set ps. CHR 0x01 \<in> set p" by simp
    obtain p1 v1 ok where pp: "patch_path al i 0 p v = (p1, v1, ok)"
      by (cases "patch_path al i 0 p v") auto
    obtain a2 b2 c2 where r2: "patch_paths al (Suc i) ps v1 = (a2, b2, c2)"
      by (cases "patch_paths al (Suc i) ps v1") auto
    have "c2 \<noteq> Patched" using Cons.IH [OF rest, of "Suc i" v1] r2 by simp
    then show ?thesis
      using False pp r2 by (cases ok) simp_all
  qed
qed

lemma UpdateSplits_cases [case_names trivial refused threw sentinel built]:
  fixes al nt r
  defines "n \<equiv> length (m_index r)"
  defines "pex \<equiv> snd (snd (patch_paths al 0 (m_index r) \<lparr>elems = [], capacity = 8 * n\<rparr>))"
  obtains
    "n \<le> kEntriesPerShard \<or> nt < 2"
    "UpdateSplits al nt r = (None, r\<lparr>m_splits := ['''', '''']\<rparr>)"
  | "kEntriesPerShard < n" "2 \<le> nt" "\<not> al n \<or> \<not> al (8 * n)"
    "UpdateSplits al nt r = (Some bad_alloc, r)"
  | a k where "kEntriesPerShard < n" "2 \<le> nt" "al n" "al (8 * n)" "pex = PushThrew"
    "a < n" "k < length (m_index r ! a)" "m_index r ! a ! k = CHR ''/''"
    "UpdateSplits al nt r =
       (Some bad_alloc, r\<lparr>m_index := (m_index r)[a := (m_index r ! a)[k := CHR 0x01]]\<rparr>)"
  | "kEntriesPerShard < n" "2 \<le> nt" "al n" "al (8 * n)" "pex = SentinelFound"
    "UpdateSplits al nt r = (None, r\<lparr>m_splits := ['''', '''']\<rparr>)"
  | s where "kEntriesPerShard < n" "2 \<le> nt" "al n" "al (8 * n)" "pex = Patched"
    "building s" "length s \<le> shards_for n nt"
    "UpdateSplits al nt r = (None, r\<lparr>m_splits := s @ ['''']\<rparr>)"
proof (cases "n \<le> kEntriesPerShard \<or> nt < 2")
  case True
  then have "UpdateSplits al nt r = (None, r\<lparr>m_splits := ['''', '''']\<rparr>)"
    by (simp add: UpdateSplits_def n_def)
  with True that(1) show ?thesis by blast
next
  case False
  then have big: "kEntriesPerShard < n" "2 \<le> nt" by simp_all
  show ?thesis
  proof (cases "al n \<and> al (8 * n)")
    case False
    then have "UpdateSplits al nt r = (Some bad_alloc, r)"
      using big by (auto simp: UpdateSplits_def n_def Let_def)
    with False big that(2) show ?thesis by blast
  next
    case True
    then have al: "al n" "al (8 * n)" by simp_all
    obtain paths patches ex where
      pp: "patch_paths al 0 (m_index r) \<lparr>elems = [], capacity = 8 * n\<rparr> = (paths, patches, ex)"
      by (cases "patch_paths al 0 (m_index r) \<lparr>elems = [], capacity = 8 * n\<rparr>") auto
    then have pex: "pex = ex" by (simp add: pex_def)
    note rs = restore_after_patch_paths [OF pp]
    show ?thesis
    proof (cases ex)
      case PushThrew
      with rs obtain a k where ak: "a < length (m_index r)" "k < length (m_index r ! a)"
        "m_index r ! a ! k = CHR ''/''"
        "restore paths patches = (m_index r)[a := (m_index r ! a)[k := CHR 0x01]]"
        by auto
      have "UpdateSplits al nt r =
         (Some bad_alloc, r\<lparr>m_index := (m_index r)[a := (m_index r ! a)[k := CHR 0x01]]\<rparr>)"
        using big al pp PushThrew ak(4)
        by (simp add: UpdateSplits_def n_def [symmetric] Let_def)
      with that(3) [of a k] big al pex PushThrew ak(1-3) show ?thesis
        by (simp add: n_def)
    next
      case SentinelFound
      with rs have "restore paths patches = m_index r" by simp
      then have "UpdateSplits al nt r = (None, r\<lparr>m_splits := ['''', '''']\<rparr>)"
        using big al pp SentinelFound
        by (simp add: UpdateSplits_def n_def [symmetric] Let_def)
      with that(4) big al pex SentinelFound show ?thesis by simp
    next
      case Patched
      with rs have rst: "restore paths patches = m_index r" by simp
      define entries where "entries =
        safe_points paths 0 (sort_key (deref paths) (map Path [0..<n])) Literal_empty Literal_empty"
      define s where "s =
        foldl (add_split (m_index r) entries n (shards_for n nt)) [''''] [0..<shards_for n nt - 1]"
      have b0: "building ['''']" by (simp add: building_def)
      have bs: "building s"
        unfolding s_def using b0 by (rule foldl_add_split_building)
      have "length s \<le> length ([[]] :: string list) + length [0..<shards_for n nt - 1]"
        unfolding s_def by (rule foldl_add_split_length)
      then have ls: "length s \<le> shards_for n nt"
        using shards_for_ge2 [OF big] by simp
      have srt: "sorted s" using bs by (rule building_sorted)
      have "UpdateSplits al nt r = (None, r\<lparr>m_splits := s @ ['''']\<rparr>)"
        using big al pp Patched rst ls srt unfolding s_def entries_def
        by (simp add: UpdateSplits_def n_def [symmetric] Let_def)
      with that(5) [of s] big al pex Patched bs ls show ?thesis by simp
    qed
  qed
qed

lemma UpdateSplits_returns:
  assumes "\<forall>k. al k"
  shows "fst (UpdateSplits al nt r) = None"
proof (cases al nt r rule: UpdateSplits_cases)
  case trivial
  then show ?thesis by simp
next
  case refused
  with assms show ?thesis by simp
next
  case (threw a k)
  with patch_paths_granted [OF assms] show ?thesis by simp
next
  case sentinel
  then show ?thesis by simp
next
  case (built s)
  then show ?thesis by simp
qed

lemma UpdateSplits_restores_paths:
  assumes "fst (UpdateSplits al nt r) \<noteq> Some bad_alloc"
  shows "m_index (snd (UpdateSplits al nt r)) = m_index r"
  using assms by (cases al nt r rule: UpdateSplits_cases) simp_all

lemma UpdateSplits_no_CheckFailed:
  "fst (UpdateSplits al nt r) \<in> {None, Some bad_alloc}"
  by (cases al nt r rule: UpdateSplits_cases) simp_all

lemma UpdateSplits_splits_inv:
  assumes "fst (UpdateSplits al nt r) = None"
  shows "splits_inv (m_splits (snd (UpdateSplits al nt r)))"
  using assms
proof (cases al nt r rule: UpdateSplits_cases)
  case (built s)
  then show ?thesis using building_splits_inv [of s] by simp
qed (simp_all add: splits_inv_def)

text \<open>
  C3: for an index of \<open>N\<close> entries, if \<open>N \<le> 512\<close> or the pool has fewer than 2 threads
  the builder emits the table \<open>["", ""]\<close>; otherwise it aims at \<open>S\<close> shards and the table
  has at most \<open>S + 1\<close> boundaries. In the code \<open>S\<close> is \<open>min(N div 512 + 1, pool_size)\<close>, with
  the quotient rounded down (line 547), whenever the builder returns.
\<close>

theorem UpdateSplits_table_size:
  assumes "fst (UpdateSplits al nt r) = None"
  shows "(length (m_index r) \<le> 512 \<or> nt < 2
            \<longrightarrow> m_splits (snd (UpdateSplits al nt r)) = ['''', ''''])
       \<and> (\<not> (length (m_index r) \<le> 512 \<or> nt < 2)
            \<longrightarrow> shards_for (length (m_index r)) nt = min (length (m_index r) div 512 + 1) nt
              \<and> length (m_splits (snd (UpdateSplits al nt r)))
                  \<le> shards_for (length (m_index r)) nt + 1)"
  using assms
proof (cases al nt r rule: UpdateSplits_cases)
  case trivial
  then show ?thesis by (simp add: kEntriesPerShard_def shards_for_def)
next
  case refused
  with assms show ?thesis by simp
next
  case (threw a k)
  with assms show ?thesis by simp
next
  case sentinel
  then show ?thesis
    using shards_for_ge2 [of "length (m_index r)" nt]
    by (simp add: kEntriesPerShard_def shards_for_def)
next
  case (built s)
  then show ?thesis by (simp add: kEntriesPerShard_def shards_for_def)
qed

text \<open>
  C7: if a path of the index contains the byte 1, the builder produces the table
  \<open>["", ""]\<close> and raises no error. Without a condition this fails: an allocation that is
  refused before the loop reaches that path ends the builder by \<open>std::bad_alloc\<close>, with no
  table produced (an instance follows the theorem). What holds: with such a path in the
  index the builder fails no \<open>CHECK\<close> and throws no \<open>Exception\<close>; whenever it returns it
  has produced the table \<open>["", ""]\<close> and left the repository otherwise as it was; and it
  returns whenever the allocator grants what it asks for.
\<close>

theorem UpdateSplits_sentinel_fallback:
  assumes "\<exists>p \<in> set (m_index r). CHR 0x01 \<in> set p"
  shows "fst (UpdateSplits al nt r) \<noteq> Some CheckFailed
       \<and> fst (UpdateSplits al nt r) \<noteq> Some Exception
       \<and> (fst (UpdateSplits al nt r) = None
            \<longrightarrow> UpdateSplits al nt r = (None, r\<lparr>m_splits := ['''', '''']\<rparr>))
       \<and> ((\<forall>k. al k)
            \<longrightarrow> UpdateSplits al nt r = (None, r\<lparr>m_splits := ['''', '''']\<rparr>))"
proof (cases al nt r rule: UpdateSplits_cases)
  case trivial
  then show ?thesis by simp
next
  case refused
  then show ?thesis by auto
next
  case (threw a k)
  have "(\<forall>k. al k) \<longrightarrow> UpdateSplits al nt r = (None, r\<lparr>m_splits := ['''', '''']\<rparr>)"
  proof
    assume g: "\<forall>k. al k"
    from patch_paths_granted [OF g] threw(5) show
      "UpdateSplits al nt r = (None, r\<lparr>m_splits := ['''', '''']\<rparr>)" by simp
  qed
  with threw(9) show ?thesis by simp
next
  case sentinel
  then show ?thesis by simp
next
  case (built s)
  with patch_paths_sentinel [OF assms] show ?thesis by simp
qed

lemma digit_in: "digit d \<in> set ''0123456789''"
  unfolding digit_def by (rule nth_mem) simp

lemma digit_plain:
  "digit d \<noteq> CHR 0x01" "digit d \<noteq> CHR ''/''" "CHR 0x01 \<noteq> digit d" "CHR ''/'' \<noteq> digit d"
  using digit_in [of d] by auto

lemma deep_path_facts:
  "CHR 0x01 \<notin> set (deep_path k)"
  "slashes (deep_path k) = 9"
  by (simp_all add: deep_path_def name3_def slashes_def digit_plain)

lemma deep_paths_facts:
  "length deep_paths = 513"
  "\<forall>p \<in> set deep_paths. CHR 0x01 \<notin> set p"
  "sum_list (map slashes deep_paths) = 4617"
proof -
  show "length deep_paths = 513" by (simp add: deep_paths_def)
  show "\<forall>p \<in> set deep_paths. CHR 0x01 \<notin> set p"
    unfolding deep_paths_def using deep_path_facts(1) by auto
  have "map slashes deep_paths = map (\<lambda>_. 9) [0..<513]"
    unfolding deep_paths_def using deep_path_facts(2) by simp
  then show "sum_list (map slashes deep_paths) = 4617"
    by (simp add: sum_list_triv)
qed

text \<open>
  A vector with room for all slashes never throws, and the loop over a list of paths is
  the loop over its first part followed by the loop over the rest.
\<close>

lemma patch_paths_append:
  "patch_paths al i (ps1 @ ps2) v =
    (case patch_paths al i ps1 v of
       (ps1', v1, Patched) \<Rightarrow>
         (case patch_paths al (i + length ps1) ps2 v1 of
            (ps2', v2, ex) \<Rightarrow> (ps1' @ ps2', v2, ex))
     | (ps1', v1, SentinelFound) \<Rightarrow> (ps1' @ ps2, v1, SentinelFound)
     | (ps1', v1, PushThrew) \<Rightarrow> (ps1' @ ps2, v1, PushThrew))"
proof (induction ps1 arbitrary: i v)
  case Nil
  then show ?case by (simp split: prod.splits)
next
  case (Cons p ps1)
  show ?case
  proof (cases "CHR 0x01 \<in> set p")
    case True
    then show ?thesis by simp
  next
    case False
    obtain p1 v1 ok where pp: "patch_path al i 0 p v = (p1, v1, ok)"
      by (cases "patch_path al i 0 p v") auto
    show ?thesis
    proof (cases ok)
      case False
      with pp \<open>CHR 0x01 \<notin> set p\<close> show ?thesis by simp
    next
      case True
      obtain a b c where r1: "patch_paths al (Suc i) ps1 v1 = (a, b, c)"
        by (cases "patch_paths al (Suc i) ps1 v1") auto
      obtain a2 b2 c2 where r2: "patch_paths al (Suc i + length ps1) ps2 b = (a2, b2, c2)"
        by (cases "patch_paths al (Suc i + length ps1) ps2 b") auto
      show ?thesis
        using pp True \<open>CHR 0x01 \<notin> set p\<close> Cons.IH [of "Suc i" v1] r1 r2
        by (cases c) simp_all
    qed
  qed
qed

lemma push_back_room:
  "length (elems v) < capacity v \<Longrightarrow> push_back al p v = Some (v\<lparr>elems := elems v @ [p]\<rparr>)"
  by (simp add: push_back_def)

lemma patch_path_room:
  "length (elems v) + slashes cs \<le> capacity v \<Longrightarrow>
   \<exists>cs' v'. patch_path al i j cs v = (cs', v', True) \<and> capacity v' = capacity v
      \<and> length (elems v') = length (elems v) + slashes cs"
proof (induction cs arbitrary: j v)
  case Nil
  then show ?case by (simp add: slashes_def)
next
  case (Cons c cs)
  show ?case
  proof (cases "c = CHR ''/''")
    case False
    with Cons.prems have "length (elems v) + slashes cs \<le> capacity v"
      by (simp add: slashes_def)
    from Cons.IH [OF this, of "Suc j"] False show ?thesis
      by (auto simp: slashes_def)
  next
    case True
    let ?v = "v\<lparr>elems := elems v @ [(i, j)]\<rparr>"
    from Cons.prems True have room: "length (elems v) < capacity v"
      and rest: "length (elems ?v) + slashes cs \<le> capacity ?v"
      by (simp_all add: slashes_def)
    from Cons.IH [OF rest, of "Suc j"] obtain cs' v' where
      "patch_path al i (Suc j) cs ?v = (cs', v', True)" "capacity v' = capacity v"
      "length (elems v') = length (elems ?v) + slashes cs"
      by auto
    with True push_back_room [OF room, of al "(i, j)"] show ?thesis
      by (simp add: slashes_def)
  qed
qed

lemma patch_paths_room:
  "\<forall>p \<in> set ps. CHR 0x01 \<notin> set p \<Longrightarrow>
   length (elems v) + sum_list (map slashes ps) \<le> capacity v \<Longrightarrow>
   \<exists>ps' v'. patch_paths al i ps v = (ps', v', Patched) \<and> capacity v' = capacity v
      \<and> length (elems v') = length (elems v) + sum_list (map slashes ps)"
proof (induction ps arbitrary: i v)
  case Nil
  then show ?case by simp
next
  case (Cons p ps)
  from Cons.prems have ns: "CHR 0x01 \<notin> set p" and ns': "\<forall>p \<in> set ps. CHR 0x01 \<notin> set p"
    and r1: "length (elems v) + slashes p \<le> capacity v"
    by simp_all
  from patch_path_room [OF r1, of al i 0] obtain p1 v1 where
    pp: "patch_path al i 0 p v = (p1, v1, True)" "capacity v1 = capacity v"
    "length (elems v1) = length (elems v) + slashes p"
    by blast
  with Cons.prems(2) have r2: "length (elems v1) + sum_list (map slashes ps) \<le> capacity v1"
    by simp
  from Cons.IH [OF ns' r2, of "Suc i"] obtain ps' v' where
    "patch_paths al (Suc i) ps v1 = (ps', v', Patched)" "capacity v' = capacity v1"
    "length (elems v') = length (elems v1) + sum_list (map slashes ps)"
    by blast
  with pp ns show ?case by simp
qed

lemma UpdateSplits_bad_alloc_leaves_byte:
  assumes "fst (UpdateSplits al nt r) = Some bad_alloc"
    and "al (length (m_index r))" and "al (8 * length (m_index r))"
  shows "\<exists>a k. a < length (m_index r) \<and> k < length (m_index r ! a)
     \<and> m_index r ! a ! k = CHR ''/''
     \<and> m_index (snd (UpdateSplits al nt r)) = (m_index r)[a := (m_index r ! a)[k := CHR 0x01]]"
proof (cases al nt r rule: UpdateSplits_cases)
  case (threw a k)
  then show ?thesis by auto
qed (use assms in simp_all)

lemma deep_paths_split:
  "deep_paths = map deep_path [0..<456] @ deep_path 456 # map deep_path [457..<513]"
proof -
  have "[0..<513] = [0..<456] @ [456..<513]"
    using upt_add_eq_append [of 0 456 57] by simp
  moreover have "[456..<513] = 456 # [457..<513]"
    by (simp add: upt_conv_Cons)
  ultimately show ?thesis
    by (simp add: deep_paths_def)
qed

lemma deep_path_456: "deep_path 456 = ''a/b/c/d/e/f/g/h/i/f456''"
  by (simp add: deep_path_def name3_def digit_def)

lemma first_456:
  "\<forall>p \<in> set (map deep_path [0..<456]). CHR 0x01 \<notin> set p"
  "sum_list (map slashes (map deep_path [0..<456])) = 4104"
proof -
  show "\<forall>p \<in> set (map deep_path [0..<456]). CHR 0x01 \<notin> set p"
    using deep_path_facts(1) by auto
  have "map slashes (map deep_path [0..<456]) = map (\<lambda>_. 9) [0..<456]"
    using deep_path_facts(2) by simp
  then have "sum_list (map slashes (map deep_path [0..<456])) = sum_list (map (\<lambda>_. 9) [0..<456])"
    by (rule arg_cong)
  also have "\<dots> = 4104" by (simp add: sum_list_triv)
  finally show "sum_list (map slashes (map deep_path [0..<456])) = 4104" .
qed

lemma full_vector_throws:
  assumes "length (elems v) = 4104" "capacity v = 4104"
  shows "patch_paths tight_allocator 456 (deep_path 456 # rest) v
         = ((CHR ''a'' # CHR 0x01 # ''b/c/d/e/f/g/h/i/f456'') # rest, v, PushThrew)"
proof -
  have "push_back tight_allocator (456, 1) v = None"
    using assms by (simp add: push_back_def tight_allocator_def)
  then have "patch_path tight_allocator 456 0 (deep_path 456) v
      = (CHR ''a'' # CHR 0x01 # ''b/c/d/e/f/g/h/i/f456'', v, False)"
    by (simp add: deep_path_456)
  then show ?thesis
    by (simp add: deep_path_456)
qed

text \<open>
  C6: on every exit path of the builder, every path of the index is left as it was on
  entry. With the index \<open>deep_paths\<close> and an allocator that grants the 4104 pointers
  reserved for \<open>patches\<close> but not the growth to 8208, the entries 0 to 455 fill the
  vector, and the push of the 4105th address, that of the first slash of entry 456,
  throws after line 521 has overwritten the byte and before line 522 has recorded its
  address: the scope guard of lines 508-510 restores the 4104 recorded bytes, and the
  builder leaves by \<open>std::bad_alloc\<close> with the byte at offset 1 of entry 456 still 1
  where the index had a slash.
\<close>

theorem UpdateSplits_push_back_throws:
  "deep_paths ! 456 = ''a/b/c/d/e/f/g/h/i/f456''
   \<and> UpdateSplits tight_allocator 4 deep_repo
       = (Some bad_alloc,
          deep_repo\<lparr>m_index :=
            deep_paths[456 := CHR ''a'' # CHR 0x01 # ''b/c/d/e/f/g/h/i/f456'']\<rparr>)"
proof -
  let ?A = "map deep_path [0..<456]"
  let ?B = "map deep_path [457..<513]"
  let ?p' = "CHR ''a'' # CHR 0x01 # ''b/c/d/e/f/g/h/i/f456''"
  let ?v0 = "\<lparr>elems = [], capacity = 4104\<rparr>"
  have lenA: "length ?A = 456" by simp
  from patch_paths_room [of ?A ?v0 tight_allocator 0] first_456
  obtain A' v1 where
    pa: "patch_paths tight_allocator 0 ?A ?v0 = (A', v1, Patched)"
    and v1: "capacity v1 = 4104" "length (elems v1) = 4104"
    by auto
  have pb: "patch_paths tight_allocator 456 (deep_path 456 # ?B) v1 = (?p' # ?B, v1, PushThrew)"
    using v1(2) v1(1) by (rule full_vector_throws)
  have pall: "patch_paths tight_allocator 0 deep_paths ?v0 = (A' @ ?p' # ?B, v1, PushThrew)"
    unfolding deep_paths_split patch_paths_append using pa pb lenA by simp
  from patch_paths_restore [OF pa] obtain new res where
    n: "elems v1 = elems ?v0 @ new" and r: "res = ?A"
    and f: "\<forall>pre suf. length pre = 0 \<longrightarrow> foldl poke (pre @ A' @ suf) new = pre @ res @ suf"
    by auto
  have "length ([] :: string list) = 0 \<longrightarrow>
      foldl poke ([] @ A' @ (?p' # ?B)) new = [] @ res @ (?p' # ?B)"
    using f by (elim allE)
  then have rs: "restore (A' @ ?p' # ?B) v1 = ?A @ ?p' # ?B"
    using n r by (simp add: restore_def)
  have upd: "?A @ ?p' # ?B = deep_paths[456 := ?p']"
    unfolding deep_paths_split using lenA by (simp add: list_update_append)
  have nth: "deep_paths ! 456 = ''a/b/c/d/e/f/g/h/i/f456''"
    unfolding deep_paths_split using lenA by (simp add: nth_append deep_path_456)
  have "UpdateSplits tight_allocator 4 deep_repo
       = (Some bad_alloc, deep_repo\<lparr>m_index := deep_paths[456 := ?p']\<rparr>)"
    using pall rs upd deep_paths_facts(1)
    by (simp add: UpdateSplits_def deep_repo_def Let_def kEntriesPerShard_def tight_allocator_def)
  with nth show ?thesis by simp
qed

subsection \<open>The steps of the worker threads\<close>

lemma and_then_Inr:
  "and_then x f = Inr y \<Longrightarrow> \<exists>a. x = Inr a \<and> f a = Inr y"
  by (cases x) auto

lemma and_then_InrE:
  assumes "and_then x f = Inr y"
  obtains a where "x = Inr a" "f a = Inr y"
  using assms by (cases x) auto

lemma keeps_refl: "keeps r r"
  by (simp add: keeps_def)

lemma keeps_trans: "keeps r r' \<Longrightarrow> keeps r' r'' \<Longrightarrow> keeps r r''"
  by (auto simp: keeps_def)

lemma UpdateFile_keeps: "keeps r (UpdateFile sl p r)"
  by (cases sl) (auto simp: keeps_def UpdateFile_def TrySet_def Empty_def splits_ok_def)

lemma dirty_notify_cb_keeps: "keeps r (snd (dirty_notify_cb d r))"
  by (simp add: dirty_notify_cb_def Let_def keeps_refl UpdateFile_keeps)

lemma staged_notify_cb_keeps: "keeps r (snd (staged_notify_cb d r))"
  by (simp add: staged_notify_cb_def UpdateFile_keeps)

lemma DecInflight_keeps: "DecInflight r = Inr r' \<Longrightarrow> keeps r r'"
  by (auto simp: DecInflight_def keeps_def splits_ok_def split: if_splits)

lemma UpdateSplits_frame:
  assumes "UpdateSplits al nt r = (None, r')"
  shows "\<exists>s. r' = r\<lparr>m_splits := s\<rparr> \<and> splits_inv s"
proof (cases al nt r rule: UpdateSplits_cases)
  case (built s)
  with assms building_splits_inv [of s] show ?thesis by auto
qed (use assms in \<open>auto simp: splits_inv_def\<close>)

lemma UpdateSplits_keeps:
  assumes "UpdateSplits al nt r = (None, r')"
  shows "keeps r r'"
proof -
  from UpdateSplits_frame [OF assms] obtain s where "r' = r\<lparr>m_splits := s\<rparr>" "splits_inv s"
    by blast
  then show ?thesis
    by (auto simp: keeps_def splits_ok_def)
qed

lemma worker_step_keeps:
  assumes "worker_step al nt s r = Inr r'"
  shows "keeps r r'"
proof (cases s)
  case (DirtyDelta d)
  with assms dirty_notify_cb_keeps [of r d] show ?thesis by auto
next
  case (StagedDelta d)
  with assms staged_notify_cb_keeps [of r d] show ?thesis by auto
next
  case TaskDone
  with assms show ?thesis by (simp add: DecInflight_keeps)
next
  case TaskThrew
  with assms show ?thesis by (simp add: DecInflight_keeps)
next
  case ErrorLatched
  with assms have "r' = r\<lparr>m_error := True\<rparr>" by simp
  then show ?thesis by (simp add: keeps_def splits_ok_def)
next
  case RefreshRan
  with assms obtain r1 where u: "UpdateSplits al nt r = (None, r1)" and d: "DecInflight r1 = Inr r'"
    by (auto split: if_splits prod.splits option.splits)
  from UpdateSplits_keeps [OF u] DecInflight_keeps [OF d] show ?thesis by (rule keeps_trans)
qed

lemma run_steps_keeps:
  "run_steps al nt ss r = Inr r' \<Longrightarrow> keeps r r'"
proof (induction ss arbitrary: r)
  case Nil
  then show ?case by (simp add: keeps_refl)
next
  case (Cons s ss)
  from Cons.prems obtain r1 where a: "worker_step al nt s r = Inr r1"
    and b: "run_steps al nt ss r1 = Inr r'"
    by (auto dest: and_then_Inr)
  from worker_step_keeps [OF a] Cons.IH [OF b] show ?case by (rule keeps_trans)
qed

lemma wait_scans_keeps:
  "wait_scans al nt head sd ss r = Inr r' \<Longrightarrow> keeps r r'"
proof (induction ss arbitrary: r)
  case Nil
  then show ?case by (auto simp: keeps_refl split: if_splits)
next
  case (Cons s ss)
  show ?case
  proof (cases "m_inflight r \<noteq> 0 \<and> \<not> m_error r \<and> \<not> Done head sd r")
    case False
    with Cons.prems show ?thesis by (auto simp: keeps_refl)
  next
    case True
    with Cons.prems obtain r1 where a: "worker_step al nt s r = Inr r1"
      and b: "wait_scans al nt head sd ss r1 = Inr r'"
      by (auto dest: and_then_Inr)
    from worker_step_keeps [OF a] Cons.IH [OF b] show ?thesis by (rule keeps_trans)
  qed
qed

lemma Wait_loop_keeps:
  "Wait_loop al nt k ss r = Inr r' \<Longrightarrow> keeps r r' \<and> m_inflight r' = k"
proof (induction ss arbitrary: r)
  case Nil
  then show ?case by (auto simp: keeps_refl split: if_splits)
next
  case (Cons s ss)
  show ?case
  proof (cases "m_inflight r \<noteq> k")
    case False
    with Cons.prems show ?thesis by (auto simp: keeps_refl)
  next
    case True
    with Cons.prems obtain r1 where a: "worker_step al nt s r = Inr r1"
      and b: "Wait_loop al nt k ss r1 = Inr r'"
      by (auto dest: and_then_Inr split: if_splits)
    from worker_step_keeps [OF a] Cons.IH [OF b] show ?thesis by (auto intro: keeps_trans)
  qed
qed

lemma Wait_keeps:
  "Wait al nt k ss r = Inr r' \<Longrightarrow> keeps r r' \<and> m_inflight r' = k"
  by (auto simp: Wait_def dest: Wait_loop_keeps split: if_splits)

subsection \<open>Starting the scans\<close>

lemma Staged_not_Dirty: "is_StagedScan t \<Longrightarrow> \<not> is_DirtyScan t"
  by (cases t) simp_all

lemma Dirty_not_Staged: "is_DirtyScan t \<Longrightarrow> \<not> is_StagedScan t"
  by (cases t) simp_all

lemma foldl_RunAsync:
  "foldl (\<lambda>r' (a, b). RunAsync (mk a b) r') r xs = launch (map (\<lambda>(a, b). mk a b) xs) r"
proof (induction xs arbitrary: r)
  case Nil
  then show ?case by (simp add: launch_def)
next
  case (Cons x xs)
  obtain a b where x: "x = (a, b)" by (cases x)
  show ?case
    unfolding x by (simp add: Cons.IH) (simp add: launch_def RunAsync_def)
qed

lemma StartDirtyScan_launch:
  "\<exists>ds. StartDirtyScan r = launch ds r \<and> (\<forall>t \<in> set ds. is_DirtyScan t)"
proof (cases "\<not> Empty (m_unstaged r) \<and> \<not> Empty (m_untracked r)")
  case True
  then have "StartDirtyScan r = launch [] r" by (simp add: StartDirtyScan_def launch_def)
  then show ?thesis by (intro exI [of _ "[]"]) simp
next
  case False
  let ?ds = "map (\<lambda>(a, b). DirtyScan (Empty (m_untracked r)) a b) (shard_ranges (m_splits r))"
  have "StartDirtyScan r = launch ?ds r"
    using False foldl_RunAsync [of "DirtyScan (Empty (m_untracked r))" r]
    by (auto simp: StartDirtyScan_def)
  moreover have "\<forall>t \<in> set ?ds. is_DirtyScan t" by auto
  ultimately show ?thesis by blast
qed

lemma StartStagedScan_launch:
  assumes "StartStagedScan ct h r = Inr r'"
  shows "\<exists>ss. r' = launch ss r \<and> (\<forall>t \<in> set ss. is_StagedScan t) \<and> (\<not> Empty (m_staged r) \<longrightarrow> ss = [])"
proof (cases "\<not> Empty (m_staged r)")
  case True
  with assms have "r' = launch [] r" by (simp add: StartStagedScan_def launch_def)
  then show ?thesis by (intro exI [of _ "[]"]) simp
next
  case False
  let ?ss = "map (\<lambda>(a, b). StagedScan a b) (shard_ranges (m_splits r))"
  have "r' = launch ?ss r"
    using False assms foldl_RunAsync [of StagedScan r]
    by (simp add: StartStagedScan_def split: if_splits)
  moreover have "\<forall>t \<in> set ?ss. is_StagedScan t" by auto
  ultimately show ?thesis using False by blast
qed

lemma launch_fields:
  "m_index (launch ts r) = m_index r" "m_staged (launch ts r) = m_staged r"
  "m_unstaged (launch ts r) = m_unstaged r" "m_untracked (launch ts r) = m_untracked r"
  "m_splits (launch ts r) = m_splits r" "m_error (launch ts r) = m_error r"
  "scheduled (launch ts r) = scheduled r @ ts"
  "m_inflight (launch ts r) = m_inflight r + int (length ts)"
  by (simp_all add: launch_def)

text \<open>What lines 365-401 add to the tasks handed to the pool, and what they keep.\<close>

lemma run_scans_effect:
  assumes "run_scans env head sd r = Inr r3"
  shows "\<exists>ds ss. scheduled r3 = scheduled r @ ds @ ss
     \<and> (\<forall>t \<in> set ds. is_DirtyScan t) \<and> (\<forall>t \<in> set ss. is_StagedScan t)
     \<and> (\<not> sd \<longrightarrow> ds = [])
     \<and> (head = None \<or> \<not> Empty (m_staged r) \<longrightarrow> ss = [])
     \<and> m_index r3 = m_index r
     \<and> (m_staged r \<noteq> None \<longrightarrow> m_staged r3 = m_staged r)
     \<and> (0 \<le> m_inflight r \<longrightarrow> 0 \<le> m_inflight r3)
     \<and> (splits_inv (m_splits r) \<longrightarrow> splits_inv (m_splits r3))"
proof (cases "Done head sd r")
  case True
  with assms have "r3 = r" by (simp add: run_scans_def)
  then show ?thesis by (intro exI [of _ "[]"]) simp
next
  case False
  obtain ds where ds: "StartDirtyScan r = launch ds r" "\<forall>t \<in> set ds. is_DirtyScan t"
    using StartDirtyScan_launch by blast
  define ds' where "ds' = (if sd then ds else [])"
  define r1 where "r1 = (if sd then StartDirtyScan r else r)"
  have r1: "r1 = launch ds' r"
    using ds(1) by (simp add: r1_def ds'_def launch_def)
  have ds': "\<forall>t \<in> set ds'. is_DirtyScan t" "\<not> sd \<longrightarrow> ds' = []"
    using ds(2) by (simp_all add: ds'_def)
  from assms False obtain r2 where
    st: "(case head of None \<Rightarrow> Inr r1 | Some h \<Rightarrow> StartStagedScan (commit_tree env) h r1) = Inr r2"
    and rest: "and_then (wait_scans (allocate env) (num_threads env) head sd (scan_steps env) r2)
            (run_steps (allocate env) (num_threads env) (late_steps env)) = Inr r3"
    unfolding run_scans_def r1_def [symmetric]
    by (auto dest: and_then_Inr split: if_splits)
  from rest obtain r2' where w: "wait_scans (allocate env) (num_threads env) head sd (scan_steps env) r2 = Inr r2'"
    and l: "run_steps (allocate env) (num_threads env) (late_steps env) r2' = Inr r3"
    by (auto dest: and_then_Inr)
  have k: "keeps r2 r3"
    using wait_scans_keeps [OF w] run_steps_keeps [OF l] by (rule keeps_trans)
  have "\<exists>ss. r2 = launch ss r1 \<and> (\<forall>t \<in> set ss. is_StagedScan t)
      \<and> (head = None \<or> \<not> Empty (m_staged r) \<longrightarrow> ss = [])"
  proof (cases head)
    case None
    with st have "r2 = launch [] r1" by (simp add: launch_def)
    then show ?thesis by (intro exI [of _ "[]"]) simp
  next
    case (Some h)
    with st have "StartStagedScan (commit_tree env) h r1 = Inr r2" by simp
    from StartStagedScan_launch [OF this] Some show ?thesis
      by (simp add: r1 launch_fields)
  qed
  then obtain ss where ss: "r2 = launch ss r1" "\<forall>t \<in> set ss. is_StagedScan t"
    "head = None \<or> \<not> Empty (m_staged r) \<longrightarrow> ss = []" by blast
  have f2: "scheduled r2 = scheduled r @ ds' @ ss" "m_index r2 = m_index r"
    "m_staged r2 = m_staged r" "m_splits r2 = m_splits r"
    "m_inflight r2 = m_inflight r + int (length ds') + int (length ss)"
    by (simp_all add: ss(1) r1 launch_fields)
  have "scheduled r3 = scheduled r @ ds' @ ss" "m_index r3 = m_index r"
    "m_staged r \<noteq> None \<longrightarrow> m_staged r3 = m_staged r"
    "0 \<le> m_inflight r \<longrightarrow> 0 \<le> m_inflight r3"
    "splits_inv (m_splits r) \<longrightarrow> splits_inv (m_splits r3)"
    using k f2 by (simp_all add: keeps_def)
  with ds' ss(2,3) show ?thesis by blast
qed

lemma scan_and_report_effect:
  assumes "scan_and_report env head dmax r = Inr (st, r')"
  shows "\<exists>ds ss rs. scheduled r' = scheduled r @ ds @ ss @ rs
     \<and> (\<forall>t \<in> set ds. is_DirtyScan t) \<and> (\<forall>t \<in> set ss. is_StagedScan t)
     \<and> (\<forall>t \<in> set rs. t = RefreshSplits)
     \<and> (\<not> length (m_index r) \<le> dmax \<longrightarrow> ds = [])
     \<and> (head = None \<or> \<not> Empty (m_staged r) \<longrightarrow> ss = [])
     \<and> m_index r' = m_index r
     \<and> (m_staged r \<noteq> None \<longrightarrow> m_staged r' = m_staged r)
     \<and> (0 \<le> m_inflight r \<longrightarrow> 0 \<le> m_inflight r')
     \<and> (splits_inv (m_splits r) \<longrightarrow> splits_inv (m_splits r'))
     \<and> st = report head (length (m_index r)) (length (m_index r) \<le> dmax) r'"
proof -
  let ?sd = "length (m_index r) \<le> dmax"
  from assms obtain r3 where rs: "run_scans env head ?sd r = Inr r3"
    and r': "r' = (if splits_stale env then RunAsync RefreshSplits r3 else r3)"
    and st: "st = report head (length (m_index r)) ?sd r'"
    unfolding scan_and_report_def Let_def
    by (auto dest!: and_then_Inr split: if_splits)
  from run_scans_effect [OF rs] obtain ds ss where e:
    "scheduled r3 = scheduled r @ ds @ ss"
    "\<forall>t \<in> set ds. is_DirtyScan t" "\<forall>t \<in> set ss. is_StagedScan t"
    "\<not> ?sd \<longrightarrow> ds = []" "head = None \<or> \<not> Empty (m_staged r) \<longrightarrow> ss = []"
    "m_index r3 = m_index r" "m_staged r \<noteq> None \<longrightarrow> m_staged r3 = m_staged r"
    "0 \<le> m_inflight r \<longrightarrow> 0 \<le> m_inflight r3"
    "splits_inv (m_splits r) \<longrightarrow> splits_inv (m_splits r3)"
    by blast
  define rs where "rs = (if splits_stale env then [RefreshSplits] else [])"
  have "scheduled r' = scheduled r @ ds @ ss @ rs" "\<forall>t \<in> set rs. t = RefreshSplits"
    "m_index r' = m_index r" "m_staged r \<noteq> None \<longrightarrow> m_staged r' = m_staged r"
    "0 \<le> m_inflight r \<longrightarrow> 0 \<le> m_inflight r'"
    "splits_inv (m_splits r) \<longrightarrow> splits_inv (m_splits r')"
    using e r' by (simp_all add: rs_def RunAsync_def)
  with e(2-5) st show ?thesis by blast
qed

subsection \<open>The fast path\<close>

lemma set_slot_same_but_slots: "same_but_slots r (set_slot sl x r)"
  by (cases sl) (simp_all add: same_but_slots_def)

lemma same_but_slots_trans:
  "same_but_slots r r' \<Longrightarrow> same_but_slots r' r'' \<Longrightarrow> same_but_slots r r''"
  by (simp add: same_but_slots_def)

lemma get_set_slot: "get_slot sl' (set_slot sl x r) = (if sl' = sl then x else get_slot sl' r)"
  by (cases sl; cases sl') simp_all

lemma Fetch_effect:
  assumes "Fetch sf sl r = (f, r')"
  shows "same_but_slots r r'"
    and "get_slot sl r' = None"
    and "sl' \<noteq> sl \<Longrightarrow> get_slot sl' r' = get_slot sl' r"
    and "get_slot sl r = Some p \<Longrightarrow>
         f = \<lparr>file_flags = (case sf p of None \<Rightarrow> 0 | Some fl \<Rightarrow> fl), file_path = p\<rparr>"
proof -
  have r': "r' = (if get_slot sl r = None then r else set_slot sl None r)"
    using assms by (auto simp: Fetch_def Clear_def Empty_def split: option.splits)
  show "same_but_slots r r'"
    unfolding r' by (simp add: set_slot_same_but_slots) (simp add: same_but_slots_def)
  show "get_slot sl r' = None"
    unfolding r' by (simp add: get_set_slot)
  show "sl' \<noteq> sl \<Longrightarrow> get_slot sl' r' = get_slot sl' r"
    unfolding r' by (simp add: get_set_slot)
  show "get_slot sl r = Some p \<Longrightarrow>
         f = \<lparr>file_flags = (case sf p of None \<Rightarrow> 0 | Some fl \<Rightarrow> fl), file_path = p\<rparr>"
    using assms by (simp add: Fetch_def Clear_def Empty_def)
qed

lemma Snatch_frame:
  assumes "Snatch msk sl fs r = Inr (fs', r')"
  shows "same_but_slots r r'" and "sl' \<noteq> sl \<Longrightarrow> get_slot sl' r' = get_slot sl' r"
proof -
  have "same_but_slots r r' \<and> (\<forall>sl'. sl' \<noteq> sl \<longrightarrow> get_slot sl' r' = get_slot sl' r)"
    using assms
  proof (induction fs arbitrary: fs')
    case Nil
    then show ?case by (simp add: same_but_slots_def)
  next
    case (Cons f fs)
    show ?case
    proof (cases "file_flags f AND msk \<noteq> 0")
      case True
      with Cons.prems have "r' = set_slot sl (Some (file_path f)) r"
        by (auto simp: TrySet_def split: if_splits)
      then show ?thesis by (simp add: set_slot_same_but_slots get_set_slot)
    next
      case False
      with Cons.prems have "and_then (Snatch msk sl fs r) (\<lambda>(fs', r'). Inr (f # fs', r')) = Inr (fs', r')"
        by simp
      from and_then_Inr [OF this]
      obtain fs2 where "Snatch msk sl fs r = Inr (fs2, r')" by auto
      from Cons.IH [OF this] show ?thesis .
    qed
  qed
  then show "same_but_slots r r'" and "sl' \<noteq> sl \<Longrightarrow> get_slot sl' r' = get_slot sl' r"
    by simp_all
qed

lemma Snatch_hit:
  assumes "file_flags f AND msk \<noteq> 0" "get_slot sl r = None"
  shows "\<exists>fs' r'. Snatch msk sl (f # fs) r = Inr (fs', r') \<and> get_slot sl r' = Some (file_path f)"
  using assms by (simp add: TrySet_def get_set_slot)

lemma UpdateKnown_parts:
  assumes "UpdateKnown sf r = Inr r'"
  obtains f1 r1 f2 r2 f3 r3 files4 r4 files5 r5 files6 where
    "Fetch sf staged r = (f1, r1)" "Fetch sf unstaged r1 = (f2, r2)"
    "Fetch sf untracked r2 = (f3, r3)"
    "Snatch staged_mask staged [f1, f2, f3] r3 = Inr (files4, r4)"
    "Snatch unstaged_mask unstaged files4 r4 = Inr (files5, r5)"
    "Snatch untracked_mask untracked files5 r5 = Inr (files6, r')"
proof -
  obtain f1 r1 where F1: "Fetch sf staged r = (f1, r1)" by (cases "Fetch sf staged r")
  obtain f2 r2 where F2: "Fetch sf unstaged r1 = (f2, r2)" by (cases "Fetch sf unstaged r1")
  obtain f3 r3 where F3: "Fetch sf untracked r2 = (f3, r3)" by (cases "Fetch sf untracked r2")
  from assms F1 F2 F3 have
    "and_then (Snatch staged_mask staged [f1, f2, f3] r3) (\<lambda>(files, r4).
       and_then (Snatch unstaged_mask unstaged files r4) (\<lambda>(files, r5).
       and_then (Snatch untracked_mask untracked files r5) (\<lambda>(files, r6). Inr r6))) = Inr r'"
    by (simp add: UpdateKnown_def del: Snatch.simps)
  then obtain a4 where a4: "Snatch staged_mask staged [f1, f2, f3] r3 = Inr a4"
    and c4: "(\<lambda>(files, r4).
       and_then (Snatch unstaged_mask unstaged files r4) (\<lambda>(files, r5).
       and_then (Snatch untracked_mask untracked files r5) (\<lambda>(files, r6). Inr r6))) a4 = Inr r'"
    by (rule and_then_InrE)
  obtain files4 r4 where p4: "a4 = (files4, r4)" by (cases a4)
  from c4 p4 have
    "and_then (Snatch unstaged_mask unstaged files4 r4) (\<lambda>(files, r5).
       and_then (Snatch untracked_mask untracked files r5) (\<lambda>(files, r6). Inr r6)) = Inr r'"
    by simp
  then obtain a5 where a5: "Snatch unstaged_mask unstaged files4 r4 = Inr a5"
    and c5: "(\<lambda>(files, r5).
       and_then (Snatch untracked_mask untracked files r5) (\<lambda>(files, r6). Inr r6)) a5 = Inr r'"
    by (rule and_then_InrE)
  obtain files5 r5 where p5: "a5 = (files5, r5)" by (cases a5)
  from c5 p5 have
    "and_then (Snatch untracked_mask untracked files5 r5) (\<lambda>(files, r6). Inr r6) = Inr r'"
    by simp
  then obtain a6 where a6: "Snatch untracked_mask untracked files5 r5 = Inr a6"
    and c6: "(\<lambda>(files, r6). Inr r6) a6 = (Inr r' :: failure + Repo)"
    by (rule and_then_InrE)
  obtain files6 r6 where p6: "a6 = (files6, r6)" by (cases a6)
  with c6 have "r6 = r'" by simp
  with a6 p6 have s6: "Snatch untracked_mask untracked files5 r5 = Inr (files6, r')" by simp
  from a4 p4 have s4: "Snatch staged_mask staged [f1, f2, f3] r3 = Inr (files4, r4)" by simp
  from a5 p5 have s5: "Snatch unstaged_mask unstaged files4 r4 = Inr (files5, r5)" by simp
  from that [OF F1 F2 F3 s4 s5 s6] show ?thesis .
qed

lemma UpdateKnown_frame:
  assumes "UpdateKnown sf r = Inr r'"
  shows "same_but_slots r r'"
proof -
  from assms obtain f1 r1 f2 r2 f3 r3 files4 r4 files5 r5 files6 where
    F: "Fetch sf staged r = (f1, r1)" "Fetch sf unstaged r1 = (f2, r2)"
    "Fetch sf untracked r2 = (f3, r3)"
    and s4: "Snatch staged_mask staged [f1, f2, f3] r3 = Inr (files4, r4)"
    and s5: "Snatch unstaged_mask unstaged files4 r4 = Inr (files5, r5)"
    and s6: "Snatch untracked_mask untracked files5 r5 = Inr (files6, r')"
    by (rule UpdateKnown_parts)
  note Fetch_effect(1) [OF F(1)] Fetch_effect(1) [OF F(2)] Fetch_effect(1) [OF F(3)]
    Snatch_frame(1) [OF s4] Snatch_frame(1) [OF s5] Snatch_frame(1) [OF s6]
  then show ?thesis by (simp add: same_but_slots_def)
qed

lemma UpdateKnown_staged:
  assumes "UpdateKnown sf r = Inr r'" "m_staged r = Some p" "sf p = Some fl"
    "fl AND staged_mask \<noteq> 0"
  shows "m_staged r' = Some p"
proof -
  from assms(1) obtain f1 r1 f2 r2 f3 r3 files4 r4 files5 r5 files6 where
    F: "Fetch sf staged r = (f1, r1)" "Fetch sf unstaged r1 = (f2, r2)"
    "Fetch sf untracked r2 = (f3, r3)"
    and s4: "Snatch staged_mask staged [f1, f2, f3] r3 = Inr (files4, r4)"
    and s5: "Snatch unstaged_mask unstaged files4 r4 = Inr (files5, r5)"
    and s6: "Snatch untracked_mask untracked files5 r5 = Inr (files6, r')"
    by (rule UpdateKnown_parts)
  have f1: "f1 = \<lparr>file_flags = fl, file_path = p\<rparr>"
    using Fetch_effect(4) [OF F(1), of p] assms(2,3) by simp
  have "get_slot staged r1 = None" using Fetch_effect(2) [OF F(1)] .
  then have "get_slot staged r2 = None" using Fetch_effect(3) [OF F(2), of staged] by simp
  then have e3: "get_slot staged r3 = None" using Fetch_effect(3) [OF F(3), of staged] by simp
  from Snatch_hit [of f1 staged_mask staged r3 "[f2, f3]"] f1 assms(4) e3 s4
  have "get_slot staged r4 = Some p" by simp
  then have "get_slot staged r5 = Some p" using Snatch_frame(2) [OF s5, of staged] by simp
  then have "get_slot staged r' = Some p" using Snatch_frame(2) [OF s6, of staged] by simp
  then show ?thesis by simp
qed

subsection \<open>The status query\<close>

lemma GetIndexStats_parts:
  assumes "GetIndexStats env head dmax r = Inr (st, r')"
  obtains idx r1 r3 r5 where
    "git_index_read env = Some idx"
    "keeps r r1" "m_inflight r1 = 0"
    "m_index r3 = idx" "m_staged r3 = m_staged r1" "m_inflight r3 = 0"
    "scheduled r3 = scheduled r1" "splits_ok r1 \<longrightarrow> splits_inv (m_splits r3)"
    "UpdateKnown (git_status_file env) (r3\<lparr>m_error := False\<rparr>) = Inr r5"
    "scan_and_report env head dmax r5 = Inr (st, r')"
proof -
  define cont where "cont = (\<lambda>r1.
      (case git_index_read env of
         None \<Rightarrow> Inl Exception
       | Some paths \<Rightarrow>
           (let r2 = r1\<lparr>m_index := paths\<rparr> in
            case (if m_splits r2 = [] then UpdateSplits (allocate env) (num_threads env) r2
                  else (None, r2)) of
              (Some e, _) \<Rightarrow> Inl e
            | (None, r3) \<Rightarrow>
                and_then (UpdateKnown (git_status_file env) (r3\<lparr>m_error := False\<rparr>))
                  (scan_and_report env head dmax))))"
  have "and_then (Wait (allocate env) (num_threads env) 0 (drain_steps env) r) cont = Inr (st, r')"
    using assms unfolding GetIndexStats_def cont_def .
  then obtain r1 where w: "Wait (allocate env) (num_threads env) 0 (drain_steps env) r = Inr r1"
    and c1: "cont r1 = Inr (st, r')"
    by (rule and_then_InrE)
  from c1 have rest1: "(case git_index_read env of
         None \<Rightarrow> Inl Exception
       | Some paths \<Rightarrow>
           (let r2 = r1\<lparr>m_index := paths\<rparr> in
            case (if m_splits r2 = [] then UpdateSplits (allocate env) (num_threads env) r2
                  else (None, r2)) of
              (Some e, _) \<Rightarrow> Inl e
            | (None, r3) \<Rightarrow>
                and_then (UpdateKnown (git_status_file env) (r3\<lparr>m_error := False\<rparr>))
                  (scan_and_report env head dmax))) = Inr (st, r')"
    unfolding cont_def .
  from rest1 obtain idx where idx: "git_index_read env = Some idx"
    by (cases "git_index_read env") simp_all
  define r2 where "r2 = r1\<lparr>m_index := idx\<rparr>"
  define u where "u = (if m_splits r2 = [] then UpdateSplits (allocate env) (num_threads env) r2
         else (None, r2))"
  from rest1 have rest1': "(case u of
              (Some e, _) \<Rightarrow> Inl e
            | (None, r3) \<Rightarrow>
                and_then (UpdateKnown (git_status_file env) (r3\<lparr>m_error := False\<rparr>))
                  (scan_and_report env head dmax)) = Inr (st, r')"
    unfolding idx option.case Let_def u_def r2_def .
  obtain e r3 where ue: "u = (e, r3)" by (cases u)
  with rest1' have e: "e = None" by (cases e) simp_all
  with rest1' ue have rest2: "and_then (UpdateKnown (git_status_file env) (r3\<lparr>m_error := False\<rparr>))
                  (scan_and_report env head dmax) = Inr (st, r')"
    by simp
  from rest2
  obtain r5 where uk: "UpdateKnown (git_status_file env) (r3\<lparr>m_error := False\<rparr>) = Inr r5"
    and sr: "scan_and_report env head dmax r5 = Inr (st, r')"
    by (rule and_then_InrE)
  note k = Wait_keeps [OF w]
  have "\<exists>s. r3 = r2\<lparr>m_splits := s\<rparr> \<and> (splits_ok r1 \<longrightarrow> splits_inv s)"
  proof (cases "m_splits r2 = []")
    case True
    with ue e have "UpdateSplits (allocate env) (num_threads env) r2 = (None, r3)"
      by (simp add: u_def)
    from UpdateSplits_frame [OF this] show ?thesis by blast
  next
    case False
    with ue e have "r3 = r2\<lparr>m_splits := m_splits r2\<rparr>" by (simp add: u_def)
    moreover have "splits_ok r1 \<longrightarrow> splits_inv (m_splits r2)"
      using False by (simp add: r2_def splits_ok_def)
    ultimately show ?thesis by blast
  qed
  then obtain s where s: "r3 = r2\<lparr>m_splits := s\<rparr>" "splits_ok r1 \<longrightarrow> splits_inv s" by blast
  have f: "m_index r3 = idx" "m_staged r3 = m_staged r1" "m_inflight r3 = 0"
    "scheduled r3 = scheduled r1" "splits_ok r1 \<longrightarrow> splits_inv (m_splits r3)"
    using s k by (simp_all add: r2_def)
  from k have k1: "keeps r r1" and k2: "m_inflight r1 = 0" by simp_all
  from that [OF idx k1 k2 f uk sr] show ?thesis .
qed

text \<open>What a query that returns leaves behind.\<close>

lemma GetIndexStats_effect:
  assumes "GetIndexStats env head dmax r = Inr (st, r')"
  shows "\<exists>ds ss rs. scheduled r' = scheduled r @ ds @ ss @ rs
     \<and> (\<forall>t \<in> set ds. is_DirtyScan t) \<and> (\<forall>t \<in> set ss. is_StagedScan t)
     \<and> (\<forall>t \<in> set rs. t = RefreshSplits)
     \<and> (\<not> length (m_index r') \<le> dmax \<longrightarrow> ds = [])
     \<and> git_index_read env = Some (m_index r')
     \<and> 0 \<le> m_inflight r'
     \<and> (splits_ok r \<longrightarrow> splits_inv (m_splits r'))
     \<and> st = report head (length (m_index r')) (length (m_index r') \<le> dmax) r'"
proof -
  from assms obtain idx r1 r3 r5 where p:
    "git_index_read env = Some idx"
    "keeps r r1" "m_inflight r1 = 0"
    "m_index r3 = idx" "m_staged r3 = m_staged r1" "m_inflight r3 = 0"
    "scheduled r3 = scheduled r1" "splits_ok r1 \<longrightarrow> splits_inv (m_splits r3)"
    "UpdateKnown (git_status_file env) (r3\<lparr>m_error := False\<rparr>) = Inr r5"
    "scan_and_report env head dmax r5 = Inr (st, r')"
    by (rule GetIndexStats_parts)
  from UpdateKnown_frame [OF p(9)] p(4,6,7,8) p(2)
  have f5: "m_index r5 = idx" "m_inflight r5 = 0" "scheduled r5 = scheduled r"
    "splits_ok r \<longrightarrow> splits_inv (m_splits r5)"
    by (simp_all add: same_but_slots_def keeps_def)
  from scan_and_report_effect [OF p(10)] obtain ds ss rs where e:
    "scheduled r' = scheduled r5 @ ds @ ss @ rs"
    "\<forall>t \<in> set ds. is_DirtyScan t" "\<forall>t \<in> set ss. is_StagedScan t"
    "\<forall>t \<in> set rs. t = RefreshSplits"
    "\<not> length (m_index r5) \<le> dmax \<longrightarrow> ds = []"
    "m_index r' = m_index r5"
    "0 \<le> m_inflight r5 \<longrightarrow> 0 \<le> m_inflight r'"
    "splits_inv (m_splits r5) \<longrightarrow> splits_inv (m_splits r')"
    "st = report head (length (m_index r5)) (length (m_index r5) \<le> dmax) r'"
    by blast
  have "scheduled r' = scheduled r @ ds @ ss @ rs"
    "\<not> length (m_index r') \<le> dmax \<longrightarrow> ds = []"
    "git_index_read env = Some (m_index r')"
    "0 \<le> m_inflight r'"
    "splits_ok r \<longrightarrow> splits_inv (m_splits r')"
    "st = report head (length (m_index r')) (length (m_index r') \<le> dmax) r'"
    using e f5 p(1) by simp_all
  with e(2-4) show ?thesis by blast
qed

text \<open>
  C1: for every call of \<open>GetIndexStats\<close> without a HEAD commit whose reloaded index has at
  least one entry, the returned \<open>has_staged\<close> is true, whatever the scans have found.
\<close>

theorem GetIndexStats_no_head_staged:
  assumes "GetIndexStats env None dmax r = Inr (st, r')"
    and "git_index_read env = Some idx" and "idx \<noteq> []"
  shows "has_staged st"
proof -
  from GetIndexStats_effect [OF assms(1)]
  have "git_index_read env = Some (m_index r')"
    and "st = report None (length (m_index r')) (length (m_index r') \<le> dmax) r'"
    by blast+
  with assms(2,3) show ?thesis by (simp add: report_def)
qed

theorem GetIndexStats_no_head_staged_witness:
  "GetIndexStats hello_env None 1000 empty_repo
     = Inr (\<lparr>has_staged = True, has_unstaged = kFalse, has_untracked = kFalse\<rparr>,
            hello_repo\<lparr>m_splits := ['''', ''''], scheduled := [DirtyScan True '''' '''']\<rparr>)
   \<and> git_index_read hello_env = Some [''hello'']
   \<and> [''hello''] \<noteq> ([] :: string list)
   \<and> has_staged \<lparr>has_staged = True, has_unstaged = kFalse, has_untracked = kFalse\<rparr>"
proof -
  have h1: "GetIndexStats hello_env None 1000 empty_repo
     = Inr (\<lparr>has_staged = True, has_unstaged = kFalse, has_untracked = kFalse\<rparr>,
            hello_repo\<lparr>m_splits := ['''', ''''], scheduled := [DirtyScan True '''' '''']\<rparr>)"
    by code_simp
  have h2: "git_index_read hello_env = Some [''hello'']" by code_simp
  have h3: "[''hello''] \<noteq> ([] :: string list)" by simp
  from GetIndexStats_no_head_staged [OF h1 h2 h3] h1 h2 show ?thesis by simp
qed

text \<open>
  C2: \<open>has_staged\<close> is always definite; \<open>has_unstaged\<close> and \<open>has_untracked\<close> are unknown
  exactly when the index is larger than \<open>dirty_max_index_size\<close>. As stated this fails: a
  path that the fast path has confirmed makes the member true also for an index above
  the threshold (an instance follows the theorem). What holds: the member is
  unknown exactly when the index is larger than the threshold and its slot is empty on
  return, and true exactly when its slot is filled; above the threshold the query hands no
  dirty scan to the pool. \<open>has_staged\<close> is a boolean.
\<close>

theorem GetIndexStats_unknown_iff:
  assumes "GetIndexStats env head dmax r = Inr (st, r')"
  shows "(has_unstaged st = kUnknown \<longleftrightarrow> dmax < length (m_index r') \<and> Empty (m_unstaged r'))
    \<and> (has_untracked st = kUnknown \<longleftrightarrow> dmax < length (m_index r') \<and> Empty (m_untracked r'))
    \<and> (has_unstaged st = kTrue \<longleftrightarrow> \<not> Empty (m_unstaged r'))
    \<and> (has_untracked st = kTrue \<longleftrightarrow> \<not> Empty (m_untracked r'))
    \<and> git_index_read env = Some (m_index r')
    \<and> (dmax < length (m_index r')
         \<longrightarrow> filter is_DirtyScan (scheduled r') = filter is_DirtyScan (scheduled r))"
proof -
  from GetIndexStats_effect [OF assms] obtain ds ss rs where e:
    "scheduled r' = scheduled r @ ds @ ss @ rs"
    "\<forall>t \<in> set ss. is_StagedScan t"
    "\<forall>t \<in> set rs. t = RefreshSplits"
    "\<not> length (m_index r') \<le> dmax \<longrightarrow> ds = []"
    "git_index_read env = Some (m_index r')"
    "st = report head (length (m_index r')) (length (m_index r') \<le> dmax) r'"
    by blast
  have "filter is_DirtyScan ss = []" "filter is_DirtyScan rs = []"
    using e(2,3) by (auto simp: filter_empty_conv dest: Staged_not_Dirty)
  with e(1,4) have "dmax < length (m_index r')
      \<longrightarrow> filter is_DirtyScan (scheduled r') = filter is_DirtyScan (scheduled r)"
    by simp
  with e(5,6) show ?thesis by (simp add: report_def)
qed

theorem GetIndexStats_unknown_iff_witness:
  "GetIndexStats modified_env (Some ''c1'') 1 modified_repo
     = Inr (\<lparr>has_staged = False, has_unstaged = kTrue, has_untracked = kUnknown\<rparr>,
            modified_repo\<lparr>scheduled := [StagedScan '''' '''']\<rparr>)
   \<and> 1 < length (m_index (modified_repo\<lparr>scheduled := [StagedScan '''' '''']\<rparr>))
   \<and> \<not> Empty (m_unstaged (modified_repo\<lparr>scheduled := [StagedScan '''' '''']\<rparr>))
   \<and> Empty (m_untracked (modified_repo\<lparr>scheduled := [StagedScan '''' '''']\<rparr>))
   \<and> filter is_DirtyScan (scheduled (modified_repo\<lparr>scheduled := [StagedScan '''' '''']\<rparr>))
       = filter is_DirtyScan (scheduled modified_repo)"
proof -
  have h1: "GetIndexStats modified_env (Some ''c1'') 1 modified_repo
     = Inr (\<lparr>has_staged = False, has_unstaged = kTrue, has_untracked = kUnknown\<rparr>,
            modified_repo\<lparr>scheduled := [StagedScan '''' '''']\<rparr>)"
    by code_simp
  have h2: "1 < length (m_index (modified_repo\<lparr>scheduled := [StagedScan '''' '''']\<rparr>))"
    by code_simp
  from GetIndexStats_unknown_iff [OF h1] h1 h2 show ?thesis by simp
qed

theorem GetIndexStats_unknown_counterexample:
  "GetIndexStats modified_env (Some ''c1'') 1 modified_repo
     = Inr (\<lparr>has_staged = False, has_unstaged = kTrue, has_untracked = kUnknown\<rparr>,
            modified_repo\<lparr>scheduled := [StagedScan '''' '''']\<rparr>)
   \<and> 1 < length (m_index (modified_repo\<lparr>scheduled := [StagedScan '''' '''']\<rparr>))
   \<and> has_unstaged \<lparr>has_staged = False, has_unstaged = kTrue, has_untracked = kUnknown\<rparr>
       \<noteq> kUnknown"
  by code_simp

text \<open>
  C4: after every query that returns, the in-flight counter is not negative and the shard
  table starts and ends with the empty string. The claim that every adjacent pair of the
  table ascends strictly fails for the closing boundary, which is the empty string (an
  instance follows the theorem); what holds is that the boundaries before
  the closing one ascend strictly (\<open>splits_inv\<close>), for a repository whose table was empty
  or of that shape before the call.
\<close>

theorem GetIndexStats_invariant:
  assumes "GetIndexStats env head dmax r = Inr (st, r')"
    and "m_splits r = [] \<or> splits_inv (m_splits r)"
  shows "0 \<le> m_inflight r' \<and> splits_inv (m_splits r')"
  using GetIndexStats_effect [OF assms(1)] assms(2) by (auto simp: splits_ok_def)

theorem GetIndexStats_invariant_witness:
  "GetIndexStats hello_env None 1000 empty_repo
     = Inr (\<lparr>has_staged = True, has_unstaged = kFalse, has_untracked = kFalse\<rparr>,
            hello_repo\<lparr>m_splits := ['''', ''''], scheduled := [DirtyScan True '''' '''']\<rparr>)
   \<and> m_splits empty_repo = []
   \<and> 0 \<le> m_inflight (hello_repo\<lparr>m_splits := ['''', ''''], scheduled := [DirtyScan True '''' '''']\<rparr>)
   \<and> splits_inv (m_splits (hello_repo\<lparr>m_splits := ['''', ''''], scheduled := [DirtyScan True '''' '''']\<rparr>))"
proof -
  have h1: "GetIndexStats hello_env None 1000 empty_repo
     = Inr (\<lparr>has_staged = True, has_unstaged = kFalse, has_untracked = kFalse\<rparr>,
            hello_repo\<lparr>m_splits := ['''', ''''], scheduled := [DirtyScan True '''' '''']\<rparr>)"
    by code_simp
  have h2: "m_splits empty_repo = [] \<or> splits_inv (m_splits empty_repo)"
    by (simp add: empty_repo_def)
  from GetIndexStats_invariant [OF h1 h2] h1 h2 show ?thesis by (simp add: empty_repo_def)
qed

theorem GetIndexStats_splits_counterexample:
  "GetIndexStats hello_env None 1000 empty_repo
     = Inr (\<lparr>has_staged = True, has_unstaged = kFalse, has_untracked = kFalse\<rparr>,
            hello_repo\<lparr>m_splits := ['''', ''''], scheduled := [DirtyScan True '''' '''']\<rparr>)
   \<and> \<not> sorted_wrt (<)
        (m_splits (hello_repo\<lparr>m_splits := ['''', ''''], scheduled := [DirtyScan True '''' '''']\<rparr>))"
  by code_simp

text \<open>
  C8: if the staged slot is filled when the staged scan would be started, the query hands
  no staged scan to the pool and returns \<open>has_staged = true\<close>; this is so in particular
  when the slot held a path at the start of the query and \<open>git_status_file\<close> still reports
  an \<open>INDEX\<close> flag for it.
\<close>

theorem staged_slot_filled_no_staged_scan:
  "(m_staged r \<noteq> None \<and> scan_and_report env head dmax r = Inr (st, r')
      \<longrightarrow> has_staged st
        \<and> filter is_StagedScan (scheduled r') = filter is_StagedScan (scheduled r))
   \<and> (m_staged q = Some p \<and> git_status_file env p = Some fl \<and> fl AND staged_mask \<noteq> 0
        \<and> GetIndexStats env head dmax q = Inr (st2, q')
      \<longrightarrow> has_staged st2
        \<and> filter is_StagedScan (scheduled q') = filter is_StagedScan (scheduled q))"
proof -
  have A: "has_staged st \<and> m_staged r' = m_staged r
      \<and> filter is_StagedScan (scheduled r') = filter is_StagedScan (scheduled r)"
    if f: "m_staged r \<noteq> None" and s: "scan_and_report env head dmax r = Inr (st, r')"
    for r st r'
  proof -
    from scan_and_report_effect [OF s] obtain ds ss rs where e:
      "scheduled r' = scheduled r @ ds @ ss @ rs"
      "\<forall>t \<in> set ds. is_DirtyScan t"
      "\<forall>t \<in> set rs. t = RefreshSplits"
      "head = None \<or> \<not> Empty (m_staged r) \<longrightarrow> ss = []"
      "m_staged r \<noteq> None \<longrightarrow> m_staged r' = m_staged r"
      "st = report head (length (m_index r)) (length (m_index r) \<le> dmax) r'"
      by blast
    have "filter is_StagedScan ds = []" "filter is_StagedScan rs = []" "ss = []"
      using e(2,3,4) f by (auto simp: filter_empty_conv Empty_def dest: Dirty_not_Staged)
    with e(1,5,6) f show ?thesis by (simp add: report_def Empty_def)
  qed
  have B: "has_staged st2
      \<and> filter is_StagedScan (scheduled q') = filter is_StagedScan (scheduled q)"
    if f: "m_staged q = Some p" "git_status_file env p = Some fl" "fl AND staged_mask \<noteq> 0"
      and g: "GetIndexStats env head dmax q = Inr (st2, q')"
  proof -
    from g obtain idx r1 r3 r5 where p:
      "git_index_read env = Some idx"
      "keeps q r1" "m_inflight r1 = 0"
      "m_index r3 = idx" "m_staged r3 = m_staged r1" "m_inflight r3 = 0"
      "scheduled r3 = scheduled r1" "splits_ok r1 \<longrightarrow> splits_inv (m_splits r3)"
      "UpdateKnown (git_status_file env) (r3\<lparr>m_error := False\<rparr>) = Inr r5"
      "scan_and_report env head dmax r5 = Inr (st2, q')"
      by (rule GetIndexStats_parts)
    have "m_staged (r3\<lparr>m_error := False\<rparr>) = Some p"
      using p(2,5) f(1) by (simp add: keeps_def)
    from UpdateKnown_staged [OF p(9) this f(2,3)] have s5: "m_staged r5 \<noteq> None" by simp
    have "scheduled r5 = scheduled q"
      using UpdateKnown_frame [OF p(9)] p(2,7) by (simp add: same_but_slots_def keeps_def)
    with A [OF s5 p(10)] show ?thesis by simp
  qed
  from A B show ?thesis by blast
qed

theorem staged_slot_filled_no_staged_scan_witness:
  "m_staged staged_repo \<noteq> None
   \<and> scan_and_report staged_env (Some ''c1'') 1000 staged_repo
       = Inr (\<lparr>has_staged = True, has_unstaged = kFalse, has_untracked = kFalse\<rparr>,
              staged_repo\<lparr>scheduled := [DirtyScan True '''' '''']\<rparr>)
   \<and> filter is_StagedScan (scheduled (staged_repo\<lparr>scheduled := [DirtyScan True '''' '''']\<rparr>))
       = filter is_StagedScan (scheduled staged_repo)
   \<and> m_staged staged_repo = Some ''x/y.c''
   \<and> git_status_file staged_env ''x/y.c'' = Some GIT_STATUS_INDEX_MODIFIED
   \<and> GIT_STATUS_INDEX_MODIFIED AND staged_mask \<noteq> 0
   \<and> GetIndexStats staged_env (Some ''c1'') 0 staged_repo
       = Inr (\<lparr>has_staged = True, has_unstaged = kUnknown, has_untracked = kUnknown\<rparr>, staged_repo)
   \<and> filter is_StagedScan (scheduled staged_repo) = []"
proof -
  have h1: "m_staged staged_repo \<noteq> None" by code_simp
  have h2: "scan_and_report staged_env (Some ''c1'') 1000 staged_repo
       = Inr (\<lparr>has_staged = True, has_unstaged = kFalse, has_untracked = kFalse\<rparr>,
              staged_repo\<lparr>scheduled := [DirtyScan True '''' '''']\<rparr>)" by code_simp
  have h3: "m_staged staged_repo = Some ''x/y.c''" by code_simp
  have h4: "git_status_file staged_env ''x/y.c'' = Some GIT_STATUS_INDEX_MODIFIED" by code_simp
  have h5: "GIT_STATUS_INDEX_MODIFIED AND staged_mask \<noteq> 0" by code_simp
  have h6: "GetIndexStats staged_env (Some ''c1'') 0 staged_repo
       = Inr (\<lparr>has_staged = True, has_unstaged = kUnknown, has_untracked = kUnknown\<rparr>, staged_repo)"
    by code_simp
  have h7: "filter is_StagedScan (scheduled staged_repo) = []" by code_simp
  note a = staged_slot_filled_no_staged_scan
      [where r = staged_repo and env = staged_env and head = "Some ''c1''" and dmax = 1000,
       THEN conjunct1, rule_format, OF conjI, OF h1 h2]
  note b = staged_slot_filled_no_staged_scan
      [where q = staged_repo and env = staged_env and head = "Some ''c1''" and dmax = 0
         and p = "''x/y.c''",
       THEN conjunct2, rule_format, OF conjI, OF h3 conjI, OF h4 conjI, OF h5 h6]
  from a b h1 h2 h3 h4 h5 h6 h7 show ?thesis by (intro conjI) simp_all
qed

subsection \<open>The callback of the dirty scan\<close>

text \<open>
  C5: for every delta delivered to the callback of the dirty scan: if the error flag is
  set the callback returns \<open>GIT_EUSER\<close> (abort); else if the status is \<open>UNTRACKED\<close> the path
  is published into the untracked slot (the first path stays) and the callback returns 1
  (skip) if the unstaged slot is empty and \<open>GIT_EUSER\<close> otherwise; for any other status the
  path is published into the unstaged slot and the callback returns 1 if the untracked
  slot is empty and \<open>GIT_EUSER\<close> otherwise.
\<close>

theorem dirty_notify_cb_policy:
  "(m_error repo \<longrightarrow> dirty_notify_cb delta repo = (GIT_EUSER, repo))
   \<and> (\<not> m_error repo \<and> status delta = GIT_DELTA_UNTRACKED \<longrightarrow>
        dirty_notify_cb delta repo =
          (if Empty (m_unstaged repo) then 1 else GIT_EUSER,
           repo\<lparr>m_untracked :=
             (if Empty (m_untracked repo) then Some (new_file_path delta) else m_untracked repo)\<rparr>))
   \<and> (\<not> m_error repo \<and> status delta \<noteq> GIT_DELTA_UNTRACKED \<longrightarrow>
        dirty_notify_cb delta repo =
          (if Empty (m_untracked repo) then 1 else GIT_EUSER,
           repo\<lparr>m_unstaged :=
             (if Empty (m_unstaged repo) then Some (new_file_path delta) else m_unstaged repo)\<rparr>))"
  by (cases "m_unstaged repo"; cases "m_untracked repo")
     (simp_all add: dirty_notify_cb_def UpdateFile_def TrySet_def Empty_def Let_def)

theorem dirty_notify_cb_policy_witness:
  "dirty_notify_cb untracked_delta (empty_repo\<lparr>m_error := True\<rparr>)
     = (GIT_EUSER, empty_repo\<lparr>m_error := True\<rparr>)
   \<and> dirty_notify_cb untracked_delta empty_repo = (1, empty_repo\<lparr>m_untracked := Some ''new.txt''\<rparr>)
   \<and> dirty_notify_cb modified_delta (empty_repo\<lparr>m_untracked := Some ''new.txt''\<rparr>)
     = (GIT_EUSER, empty_repo\<lparr>m_untracked := Some ''new.txt'', m_unstaged := Some ''a.c''\<rparr>)"
  using dirty_notify_cb_policy [of "empty_repo\<lparr>m_error := True\<rparr>" untracked_delta]
    dirty_notify_cb_policy [of empty_repo untracked_delta]
    dirty_notify_cb_policy [of "empty_repo\<lparr>m_untracked := Some ''new.txt''\<rparr>" modified_delta]
  by (simp add: empty_repo_def untracked_delta_def modified_delta_def Empty_def)

subsection \<open>Instances for the shard table\<close>

text \<open>
  With the quotient rounded up, 513 entries and 4 threads would give 3 shards; line 547
  rounds down and computes 2.
\<close>

theorem shards_for_counterexample:
  "shards_for 513 4 = 2 \<and> spec_shards 513 4 = 3
   \<and> shards_for 513 4 \<noteq> spec_shards 513 4"
  by (simp add: shards_for_def spec_shards_def kEntriesPerShard_def)

theorem UpdateSplits_table_size_witness:
  "fst (UpdateSplits (\<lambda>_. True) 4 hello_repo) = None
   \<and> m_splits (snd (UpdateSplits (\<lambda>_. True) 4 hello_repo)) = ['''', '''']
   \<and> fst (UpdateSplits (\<lambda>_. True) 4 deep_repo) = None
   \<and> \<not> (length (m_index deep_repo) \<le> 512 \<or> (4::nat) < 2)
   \<and> shards_for (length (m_index deep_repo)) 4 = 2
   \<and> length (m_splits (snd (UpdateSplits (\<lambda>_. True) 4 deep_repo))) \<le> 3"
proof -
  have r1: "fst (UpdateSplits (\<lambda>_. True) 4 hello_repo) = None"
    and r2: "fst (UpdateSplits (\<lambda>_. True) 4 deep_repo) = None"
    by (simp_all add: UpdateSplits_returns)
  have l1: "length (m_index hello_repo) = 1" by (simp add: hello_repo_def)
  have l2: "length (m_index deep_repo) = 513"
    using deep_paths_facts(1) by (simp add: deep_repo_def)
  from UpdateSplits_table_size [OF r1] UpdateSplits_table_size [OF r2] r1 r2 l1 l2
  show ?thesis by simp
qed

theorem UpdateSplits_sentinel_fallback_witness:
  "(\<exists>p \<in> set (m_index sentinel_repo). CHR 0x01 \<in> set p)
   \<and> 512 < length (m_index sentinel_repo)
   \<and> fst (UpdateSplits (\<lambda>_. True) 4 sentinel_repo) = None
   \<and> UpdateSplits (\<lambda>_. True) 4 sentinel_repo = (None, sentinel_repo\<lparr>m_splits := ['''', '''']\<rparr>)"
proof -
  have h1: "\<exists>p \<in> set (m_index sentinel_repo). CHR 0x01 \<in> set p"
    by (simp add: sentinel_repo_def)
  have h2: "fst (UpdateSplits (\<lambda>_. True) 4 sentinel_repo) = None"
    by (simp add: UpdateSplits_returns)
  have h3: "512 < length (m_index sentinel_repo)"
    using deep_paths_facts(1) by (simp add: sentinel_repo_def)
  from UpdateSplits_sentinel_fallback [OF h1, of "\<lambda>_. True" 4] h1 h2 h3 show ?thesis by simp
qed

text \<open>
  The index \<open>deep_paths\<close> followed by a path that holds the byte 1 has 514 entries. An
  allocator that grants at most 4104 pointers refuses the 4112 that line 506 reserves:
  the builder leaves by \<open>std::bad_alloc\<close> and the shard table stays empty.
\<close>

theorem UpdateSplits_sentinel_counterexample:
  "(\<exists>p \<in> set (m_index sentinel_repo). CHR 0x01 \<in> set p)
   \<and> UpdateSplits tight_allocator 4 sentinel_repo = (Some bad_alloc, sentinel_repo)
   \<and> m_splits sentinel_repo = []
   \<and> UpdateSplits tight_allocator 4 sentinel_repo
       \<noteq> (None, sentinel_repo\<lparr>m_splits := ['''', '''']\<rparr>)"
proof -
  have h1: "\<exists>p \<in> set (m_index sentinel_repo). CHR 0x01 \<in> set p"
    by (simp add: sentinel_repo_def)
  have len: "length (m_index sentinel_repo) = 514"
    using deep_paths_facts(1) by (simp add: sentinel_repo_def)
  have h2: "UpdateSplits tight_allocator 4 sentinel_repo = (Some bad_alloc, sentinel_repo)"
    by (simp add: UpdateSplits_def Let_def len kEntriesPerShard_def tight_allocator_def)
  have h3: "m_splits sentinel_repo = []"
    by (simp add: sentinel_repo_def empty_repo_def)
  from h1 h2 h3 show ?thesis by simp
qed

subsection \<open>Head\<close>

text \<open>
  C10: \<open>Head\<close> returns null only when the lookup of HEAD reports not-found; when HEAD is
  found but cannot be resolved to a direct reference, \<open>Head\<close> returns the symbolic HEAD
  reference itself.
\<close>

theorem Head_null_only_if_not_found:
  "(Head lk resolve = Inr None \<longleftrightarrow> lk = GIT_ENOTFOUND)
   \<and> (lk = Found symbolic \<and> resolve symbolic = None
        \<longrightarrow> Head lk resolve = Inr (Some symbolic))"
  by (cases lk) (auto simp: Head_def split: option.splits)

theorem Head_null_only_if_not_found_witness:
  "(Head (Found unborn_HEAD) (\<lambda>_. None) = Inr None \<longleftrightarrow> Found unborn_HEAD = GIT_ENOTFOUND)
   \<and> Head (Found unborn_HEAD) (\<lambda>_. None) = Inr (Some unborn_HEAD)
   \<and> Head GIT_ENOTFOUND (\<lambda>_. None) = Inr None"
  using Head_null_only_if_not_found [of "Found unborn_HEAD" "\<lambda>_. None" unborn_HEAD]
    Head_null_only_if_not_found [of GIT_ENOTFOUND "\<lambda>_. None" unborn_HEAD]
  by simp

end
